theory Spec2Isabelle
  imports Complex_Main "HOL-Library.AList" "HOL-Library.Log_Nat" "HOL-Library.Multiset"
begin

section \<open>Python values and exceptions\<close>

text \<open>
  The program is Python 3 (\<^verbatim>\<open>next_datetime\<close> has a keyword-only argument after
  \<^verbatim>\<open>*date_time\<close>). Its integers are unbounded (\<^typ>\<open>int\<close>), \<^verbatim>\<open>//\<close> is floor division
  (\<open>div\<close> on \<^typ>\<open>int\<close>), and every exception the modelled routines can raise is a value
  of \<open>error\<close>; a routine that can raise returns \<open>error + 'a\<close>.
\<close>

datatype error = TypeError | ValueError | OverflowError | ZeroDivisionError | AttributeError

definition bind_err :: "error + 'a \<Rightarrow> ('a \<Rightarrow> error + 'b) \<Rightarrow> error + 'b" where
  "bind_err m f = (case m of Inl e \<Rightarrow> Inl e | Inr x \<Rightarrow> f x)"

section \<open>Regular expressions of the hostname table\<close>

text \<open>
  \<^verbatim>\<open>re.match\<close> anchors a pattern at the start of the string and accepts any remainder.
  \<open>residues r s\<close> lists what is left of \<open>s\<close> after each way of matching \<open>r\<close> on a prefix,
  so a match exists exactly when the list is not empty.
\<close>

datatype regex =
    Sym "char list"
  | Cat regex regex
  | Alt regex regex
  | Eps

fun residues :: "regex \<Rightarrow> string \<Rightarrow> string list" where
  "residues Eps s = [s]"
| "residues (Sym cs) [] = []"
| "residues (Sym cs) (c # s) = (if c \<in> set cs then [s] else [])"
| "residues (Cat a b) s = concat (map (residues b) (residues a s))"
| "residues (Alt a b) s = residues a s @ residues b s"

definition re_match :: "regex \<Rightarrow> string \<Rightarrow> bool" where
  "re_match r s = (residues r s \<noteq> [])"

fun lit :: "string \<Rightarrow> regex" where
  "lit [] = Eps"
| "lit (c # cs) = Cat (Sym [c]) (lit cs)"

section \<open>The sge module\<close>

text \<open>
  \<^verbatim>\<open>import sge\<close>: the module is not among the source files. \<^verbatim>\<open>core_hours\<close> calls
  three of its helpers; they are parameters of the model. A lookup that finds nothing
  returns \<^verbatim>\<open>None\<close>.
\<close>

record sge =
  category_resource :: "string \<Rightarrow> string \<Rightarrow> string option"
  node_type :: "string \<Rightarrow> string \<Rightarrow> string option"
  number :: "string option \<Rightarrow> int option"

text \<open>
  \<^verbatim>\<open>\d\<close> on the characters of a \<^typ>\<open>string\<close>, and \<^verbatim>\<open>int(e)\<close> on a string of decimal
  digits.
\<close>

definition is_digit :: "char \<Rightarrow> bool" where
  "is_digit c = (c \<in> set ''0123456789'')"

definition digit_val :: "char \<Rightarrow> int" where
  "digit_val c = int (of_char c) - 48"

definition int_of_digits :: "string \<Rightarrow> int" where
  "int_of_digits s = foldl (\<lambda>n c. 10 * n + digit_val c) 0 s"

text \<open>
  Modelled from the spec: the magnitude suffixes of \<^verbatim>\<open>sge.number\<close>, which is missing; the
  spec gives "64G" and "3T" as examples. K, M, G and T are taken as powers of 1024.
\<close>

definition suffix_factor :: "string \<Rightarrow> int option" where
  "suffix_factor s =
     (if s = [] then Some 1
      else if s = ''K'' then Some 1024
      else if s = ''M'' then Some (1024 * 1024)
      else if s = ''G'' then Some (1024 * 1024 * 1024)
      else if s = ''T'' then Some (1024 * 1024 * 1024 * 1024)
      else None)"

text \<open>
  Modelled from the spec: \<^verbatim>\<open>sge.number\<close> is missing; the spec says of it "values expressed
  with human-readable magnitude suffixes, e.g. "64G", "3T", parsed to bytes". The model
  reads a run of decimal digits and an optional suffix, and returns \<^verbatim>\<open>None\<close> for \<^verbatim>\<open>None\<close>
  and for anything else. The module-level table \<^verbatim>\<open>backup_node_mpc\<close> is built from it, and
  the example instance of the \<open>sge\<close> helpers uses it; \<^verbatim>\<open>core_hours\<close> itself takes
  \<open>number\<close> as a parameter.
\<close>

definition sge_number :: "string option \<Rightarrow> int option" where
  "sge_number v =
     (case v of
        None \<Rightarrow> None
      | Some s \<Rightarrow>
          (let ds = takeWhile is_digit s in
           if ds = [] then None
           else map_option (\<lambda>f. int_of_digits ds * f) (suffix_factor (dropWhile is_digit s))))"

section \<open>Job records and the hostname table\<close>

text \<open>
  The fields of an accounting record that \<^verbatim>\<open>main\<close> and \<^verbatim>\<open>core_hours\<close> read.
  \<open>owner\<close> is the job's owner (the user), \<open>equip_owner\<close> the equipment owner that
  \<^verbatim>\<open>record_modify\<close> stored in the record.
\<close>

record job_record =
  name :: string
  owner :: string
  equip_owner :: string
  hostname :: string
  category :: string
  ru_wallclock :: int
  slots :: int

record mpc_rule =
  re :: regex
  mpc :: int

text \<open>
  \<^verbatim>\<open>backup_node_mpc\<close>, in the order of the source; \<open>re\<close> is the compiled form of the
  entry's \<^verbatim>\<open>'regex'\<close>.
\<close>

definition backup_node_mpc :: "mpc_rule list" where
  "backup_node_mpc =
    [ \<lparr>re = Cat (lit ''h7s3b1'') (Sym ''56''),
       mpc = the (sge_number (Some ''64G'')) div 24\<rparr>,
      \<lparr>re = Cat (lit ''h'') (Cat (Sym ''12367'') (lit ''s'')),
       mpc = the (sge_number (Some ''24G'')) div 12\<rparr>,
      \<lparr>re = Cat (lit ''dc'') (Cat (Sym ''1234'') (lit ''s'')),
       mpc = the (sge_number (Some ''128G'')) div 24\<rparr>,
      \<lparr>re = Cat (lit ''c2s0b'') (Cat (Sym ''0123'') (lit ''n'')),
       mpc = the (sge_number (Some ''24G'')) div 8\<rparr>,
      \<lparr>re = Cat (lit ''c'') (Cat (Sym ''123'') (lit ''s'')),
       mpc = the (sge_number (Some ''12G'')) div 8\<rparr>,
      \<lparr>re = Cat (lit ''smp'') (Sym ''1234''),
       mpc = the (sge_number (Some ''128G'')) div 16\<rparr>,
      \<lparr>re = Cat (lit ''g8s'') (Cat (Alt (Sym ''789'') (lit ''10'')) (lit ''n'')),
       mpc = the (sge_number (Some ''256G'')) div 16\<rparr>,
      \<lparr>re = Cat (lit ''g'') (Cat (Sym ''0123456789'') (lit ''s'')),
       mpc = the (sge_number (Some ''64G'')) div 16\<rparr>,
      \<lparr>re = lit ''hb01s'',
       mpc = the (sge_number (Some ''256G'')) div 20\<rparr>,
      \<lparr>re = lit ''hb02n'',
       mpc = the (sge_number (Some ''3T'')) div 48\<rparr> ]"

section \<open>core_hours\<close>

text \<open>
  The first block of \<^verbatim>\<open>core_hours\<close>: memory per core from the node type named in the
  job's category. \<^verbatim>\<open>if nt\<close> and \<^verbatim>\<open>if cores and memory\<close> are Python truth tests:
  \<^verbatim>\<open>None\<close>, the empty string and \<open>0\<close> are false.
\<close>

definition node_mem_core :: "sge \<Rightarrow> job_record \<Rightarrow> int option" where
  "node_mem_core env r =
     (case category_resource env (category r) ''node_type'' of
        None \<Rightarrow> None
      | Some nt \<Rightarrow>
          if nt = [] then None
          else
            (let cores = number env (node_type env nt ''num_pe'');
                 memory = number env (node_type env nt ''memory'')
             in case cores of
                  None \<Rightarrow> None
                | Some c \<Rightarrow>
                    (case memory of
                       None \<Rightarrow> None
                     | Some m \<Rightarrow> if c \<noteq> 0 \<and> m \<noteq> 0 then Some (m div c) else None)))"

text \<open>
  The loop over \<^verbatim>\<open>backup_node_mpc\<close>. It has no \<^verbatim>\<open>break\<close>: every rule is tried, and each
  rule that matches assigns \<^verbatim>\<open>mem_core\<close> again.
\<close>

fun backup_loop :: "mpc_rule list \<Rightarrow> string \<Rightarrow> int option \<Rightarrow> int option" where
  "backup_loop [] h mem_core = mem_core"
| "backup_loop (b # bs) h mem_core =
     backup_loop bs h (if re_match (re b) h then Some (mpc b) else mem_core)"

text \<open>\<^verbatim>\<open>mem_core\<close> as it stands before the memory request is read.\<close>

definition job_mem_core :: "sge \<Rightarrow> job_record \<Rightarrow> int option" where
  "job_mem_core env r =
     (let mem_core = node_mem_core env r in
      if mem_core = None \<or> mem_core = Some 0
      then backup_loop backup_node_mpc (hostname r) mem_core
      else mem_core)"

text \<open>
  \<^verbatim>\<open>mem_req\<close> is \<^verbatim>\<open>None\<close>, a string that \<^verbatim>\<open>if mem_req\<close> left unconverted (the empty
  string), or what \<^verbatim>\<open>sge.number\<close> returned.
\<close>

datatype mem_request = ReqNone | ReqStr string | ReqNum int

definition job_mem_req :: "sge \<Rightarrow> job_record \<Rightarrow> mem_request" where
  "job_mem_req env r =
     (case category_resource env (category r) ''h_vmem'' of
        None \<Rightarrow> ReqNone
      | Some s \<Rightarrow>
          if s = [] then ReqStr s
          else (case number env (Some s) of None \<Rightarrow> ReqNone | Some q \<Rightarrow> ReqNum q))"

text \<open>
  \<^verbatim>\<open>mem_req / float(mem_core)\<close> is a division of doubles (IEEE 754 binary64, rounding
  to nearest, ties to even), so the model carries the rounding. A double is a rational
  \<open>k * 2 ^ e\<close> with \<open>\<bar>k\<bar> < 2 ^ 53\<close> and \<open>- 1074 \<le> e\<close>. \<open>exponent x\<close> is the \<open>e\<close> with
  \<open>2 ^ e \<le> \<bar>x\<bar> < 2 ^ (e + 1)\<close>; the spacing of the doubles around \<open>x\<close> is
  \<open>2 ^ (e - 52)\<close>, and \<open>2 ^ (- 1074)\<close> in the subnormal range.
\<close>

definition exponent :: "rat \<Rightarrow> int" where
  "exponent x =
     (let (n, d) = quotient_of \<bar>x\<bar>;
          k = bitlen n - bitlen d
      in if 2 powi k \<le> \<bar>x\<bar> then k else k - 1)"

definition round_half_even :: "rat \<Rightarrow> int" where
  "round_half_even y =
     (let f = \<lfloor>y\<rfloor>; r = y - of_int f
      in if r < 1 / 2 then f
         else if 1 / 2 < r then f + 1
         else if even f then f else f + 1)"

definition round_double :: "rat \<Rightarrow> rat" where
  "round_double x =
     (if x = 0 then 0
      else let ulp = 2 powi (max (exponent x) (- 1022) - 52)
           in of_int (round_half_even (x / ulp)) * ulp)"

text \<open>
  The conversion of a Python integer to a double, by \<^verbatim>\<open>float(mem_core)\<close> and by the
  division for its left operand: the nearest double, and an \<^verbatim>\<open>OverflowError\<close> when that
  is \<open>2 ^ 1024\<close> or more.
\<close>

definition to_float :: "int \<Rightarrow> error + rat" where
  "to_float n =
     (let r = round_double (of_int n)
      in if 2 powi 1024 \<le> \<bar>r\<bar> then Inl OverflowError else Inr r)"

text \<open>
  \<^verbatim>\<open>math.ceil(mem_req / float(mem_core))\<close>: \<^verbatim>\<open>float(mem_core)\<close> is evaluated first, then
  the division converts \<^verbatim>\<open>mem_req\<close>, raises \<^verbatim>\<open>ZeroDivisionError\<close> for a divisor \<open>0.0\<close>
  and rounds the quotient to a double; \<^verbatim>\<open>math.ceil\<close> returns the ceiling of that double
  as an integer, and raises \<^verbatim>\<open>OverflowError\<close> for an infinite one.
\<close>

definition ceil_quot :: "int \<Rightarrow> int \<Rightarrow> error + int" where
  "ceil_quot q m =
     bind_err (to_float m) (\<lambda>b.
     bind_err (to_float q) (\<lambda>a.
       if b = 0 then Inl ZeroDivisionError
       else (let x = round_double (a / b)
             in if 2 powi 1024 \<le> \<bar>x\<bar> then Inl OverflowError else Inr \<lceil>x\<rceil>)))"

definition warning :: "job_record \<Rightarrow> string" where
  "warning r =
     ''Warning: could not extract mem or mem per node details for '' @ name r
       @ '' ('' @ category r @ '')''"

text \<open>
  \<^verbatim>\<open>core_hours\<close> returns the lines it printed on \<^verbatim>\<open>sys.stderr\<close> and the pair
  \<^verbatim>\<open>(time, time_adj)\<close>. A string divided by a float is a \<^verbatim>\<open>TypeError\<close>; the exceptions
  of the division and of \<^verbatim>\<open>math.ceil\<close> are those of \<open>ceil_quot\<close>.
\<close>

definition core_hours :: "sge \<Rightarrow> job_record \<Rightarrow> error + (string list \<times> int \<times> int)" where
  "core_hours env r =
     (let time = ru_wallclock r * slots r;
          time_adj = time;
          mem_core = job_mem_core env r;
          mem_req = job_mem_req env r
      in if mem_req \<noteq> ReqNone \<and> mem_core \<noteq> None then
           (case (mem_req, mem_core) of
              (ReqNum q, Some m) \<Rightarrow>
                bind_err (ceil_quot q m) (\<lambda>c. Inr ([], time, time_adj * c))
            | _ \<Rightarrow> Inl TypeError)
         else Inr ([warning r], time, time_adj))"

section \<open>Date strings\<close>

text \<open>
  \<^verbatim>\<open>$\<close> matches at the end of the string and also just before a newline that ends it,
  so both patterns are read on the string without one final newline. \<^verbatim>\<open>\d\<close> is a decimal
  digit; the characters of \<^typ>\<open>string\<close> are bytes, among which only \<open>0\<close> to \<open>9\<close> are digits.
\<close>

definition strip_newline :: "string \<Rightarrow> string" where
  "strip_newline s = (if s \<noteq> [] \<and> last s = CHR 0x0A then butlast s else s)"

definition nonempty :: "string \<Rightarrow> string option" where
  "nonempty s = (if s = [] then None else Some s)"

text \<open>
  \<^verbatim>\<open>time_startend_def.match\<close> for \<^verbatim>\<open>^(\d+)?(-(\d+)?)?$\<close>: the groups 1, 2 and 3 of the
  match, \<open>None\<close> when there is no match. A group that took no part in the match is
  \<^verbatim>\<open>None\<close>; group 2 holds the hyphen and what follows it.
\<close>

definition time_startend_match ::
  "string \<Rightarrow> (string option \<times> string option \<times> string option) option" where
  "time_startend_match s =
     (let body = strip_newline s;
          a = takeWhile is_digit body;
          rest = dropWhile is_digit body
      in case rest of
           [] \<Rightarrow> Some (nonempty a, None, None)
         | c # b \<Rightarrow>
             if c = CHR ''-'' \<and> list_all is_digit b
             then Some (nonempty a, Some rest, nonempty b)
             else None)"

fun pairs :: "string \<Rightarrow> string list option" where
  "pairs [] = Some []"
| "pairs [c] = None"
| "pairs (c # d # s) = map_option ((#) [c, d]) (pairs s)"

text \<open>
  \<^verbatim>\<open>datetime_def.match\<close> for \<^verbatim>\<open>^(\d{4})(\d{2})?(\d{2})?(\d{2})?(\d{2})?(\d{2})?$\<close>: the
  groups that are not \<^verbatim>\<open>None\<close>, in order.
\<close>

definition datetime_match :: "string \<Rightarrow> string list option" where
  "datetime_match s =
     (let body = strip_newline s in
      if list_all is_digit body \<and> 4 \<le> length body \<and> length body \<le> 14
      then map_option ((#) (take 4 body)) (pairs (drop 4 body))
      else None)"

definition parse_date :: "string option \<Rightarrow> int list option" where
  "parse_date date =
     (case date of
        None \<Rightarrow> None
      | Some d \<Rightarrow> if d = [] then None else map_option (map int_of_digits) (datetime_match d))"

text \<open>\<^verbatim>\<open>*x\<close> in a call: unpacking \<^verbatim>\<open>None\<close> is a \<^verbatim>\<open>TypeError\<close>.\<close>

definition unpack :: "'a option \<Rightarrow> error + 'a" where
  "unpack v = (case v of None \<Rightarrow> Inl TypeError | Some x \<Rightarrow> Inr x)"

definition datetime_defaults :: "int list \<Rightarrow> int list" where
  "datetime_defaults date_time =
     (let t = date_time;
          t = (if length t < 1 then t @ [1970] else t);
          t = (if length t < 2 then t @ [1] else t);
          t = (if length t < 3 then t @ [1] else t)
      in t)"

section \<open>datetime, timedelta, relativedelta\<close>

text \<open>
  The library types as the program uses them. \<^verbatim>\<open>datetime.datetime(y, m, d[, H[, M[, S]]])\<close>
  checks every component against its calendar range and raises \<^verbatim>\<open>ValueError\<close>
  outside it; fewer than three components are a \<^verbatim>\<open>TypeError\<close>. \<^verbatim>\<open>parse_date\<close> yields
  at most six components, and the constructor's further arguments are not modelled.
\<close>

record datetime =
  year :: int
  month :: int
  day :: int
  hour :: int
  minute :: int
  second :: int

definition is_leap :: "int \<Rightarrow> bool" where
  "is_leap y = (y mod 4 = 0 \<and> (y mod 100 \<noteq> 0 \<or> y mod 400 = 0))"

definition days_in_month :: "int \<Rightarrow> int \<Rightarrow> int" where
  "days_in_month y m =
     (if m = 2 then (if is_leap y then 29 else 28)
      else if m = 4 \<or> m = 6 \<or> m = 9 \<or> m = 11 then 30
      else 31)"

definition arg :: "int list \<Rightarrow> nat \<Rightarrow> int" where
  "arg rest i = (if i < length rest then rest ! i else 0)"

definition in_range :: "int \<Rightarrow> int \<Rightarrow> int \<Rightarrow> int list \<Rightarrow> bool" where
  "in_range y m d rest =
     (1 \<le> y \<and> y \<le> 9999 \<and> 1 \<le> m \<and> m \<le> 12
      \<and> 1 \<le> d \<and> d \<le> days_in_month y m
      \<and> 0 \<le> arg rest 0 \<and> arg rest 0 \<le> 23
      \<and> 0 \<le> arg rest 1 \<and> arg rest 1 \<le> 59
      \<and> 0 \<le> arg rest 2 \<and> arg rest 2 \<le> 59)"

definition datetime_new :: "int list \<Rightarrow> error + datetime" where
  "datetime_new args =
     (case args of
        y # m # d # rest \<Rightarrow>
          if 3 < length rest then Inl TypeError
          else if in_range y m d rest
          then Inr \<lparr>year = y, month = m, day = d,
                    hour = arg rest 0, minute = arg rest 1, second = arg rest 2\<rparr>
          else Inl ValueError
      | _ \<Rightarrow> Inl TypeError)"

text \<open>
  \<^verbatim>\<open>int(dt.strftime('%s'))\<close>: seconds since 1970-01-01 00:00:00 of the fields of \<open>dt\<close>,
  the day number being the proleptic Gregorian ordinal of \<^verbatim>\<open>datetime\<close> (day 1 is
  0001-01-01, day 719163 is 1970-01-01). \<^verbatim>\<open>%s\<close> reads the fields in the local time zone
  of the process; the model is the program run with the local time zone UTC.
\<close>

definition days_before_year :: "int \<Rightarrow> int" where
  "days_before_year y = (y - 1) * 365 + (y - 1) div 4 - (y - 1) div 100 + (y - 1) div 400"

definition days_before_month :: "int \<Rightarrow> int \<Rightarrow> int" where
  "days_before_month y m = sum_list (map (days_in_month y) [1..m - 1])"

definition ymd2ord :: "int \<Rightarrow> int \<Rightarrow> int \<Rightarrow> int" where
  "ymd2ord y m d = days_before_year y + days_before_month y m + d"

definition epoch :: "datetime \<Rightarrow> int" where
  "epoch t =
     (ymd2ord (year t) (month t) (day t) - 719163) * 86400
       + hour t * 3600 + minute t * 60 + second t"

text \<open>
  \<^verbatim>\<open>t + relativedelta(years=1)\<close> and \<^verbatim>\<open>t + relativedelta(months=1)\<close>: the year or the
  month moves on, the day is cut to the length of the month reached, and a year past
  9999 is a \<^verbatim>\<open>ValueError\<close>.
\<close>

definition add_years1 :: "datetime \<Rightarrow> error + datetime" where
  "add_years1 t =
     (let y = year t + 1;
          d = min (days_in_month y (month t)) (day t)
      in if 9999 < y then Inl ValueError else Inr (t\<lparr>year := y, day := d\<rparr>))"

definition add_months1 :: "datetime \<Rightarrow> error + datetime" where
  "add_months1 t =
     (let m = month t + 1;
          y = (if 12 < m then year t + 1 else year t);
          m = (if 12 < m then m - 12 else m);
          d = min (days_in_month y m) (day t)
      in if 9999 < y then Inl ValueError else Inr (t\<lparr>year := y, month := m, day := d\<rparr>))"

text \<open>
  \<^verbatim>\<open>t + timedelta(days=1)\<close>, \<^verbatim>\<open>hours=1\<close>, \<^verbatim>\<open>minutes=1\<close>, \<^verbatim>\<open>seconds=1\<close>: the next day,
  hour, minute or second of the calendar; past 9999-12-31 the sum is an
  \<^verbatim>\<open>OverflowError\<close>.
\<close>

definition add_days1 :: "datetime \<Rightarrow> error + datetime" where
  "add_days1 t =
     (if day t < days_in_month (year t) (month t) then Inr (t\<lparr>day := day t + 1\<rparr>)
      else if month t < 12 then Inr (t\<lparr>month := month t + 1, day := 1\<rparr>)
      else if year t < 9999 then Inr (t\<lparr>year := year t + 1, month := 1, day := 1\<rparr>)
      else Inl OverflowError)"

definition add_hours1 :: "datetime \<Rightarrow> error + datetime" where
  "add_hours1 t =
     (if hour t < 23 then Inr (t\<lparr>hour := hour t + 1\<rparr>) else add_days1 (t\<lparr>hour := 0\<rparr>))"

definition add_minutes1 :: "datetime \<Rightarrow> error + datetime" where
  "add_minutes1 t =
     (if minute t < 59 then Inr (t\<lparr>minute := minute t + 1\<rparr>)
      else add_hours1 (t\<lparr>minute := 0\<rparr>))"

definition add_seconds1 :: "datetime \<Rightarrow> error + datetime" where
  "add_seconds1 t =
     (if second t < 59 then Inr (t\<lparr>second := second t + 1\<rparr>)
      else add_minutes1 (t\<lparr>second := 0\<rparr>))"

section \<open>next_datetime and parse_startend\<close>

text \<open>
  \<^verbatim>\<open>next_datetime\<close> builds the dictionary \<^verbatim>\<open>case\<close> before it looks anything up: all six
  sums are computed, in the order of the keys, and the first one that raises ends the
  call. \<^verbatim>\<open>case.get(n)\<close> is \<^verbatim>\<open>None\<close> for a key that is not there.
\<close>

definition case_get :: "'a list \<Rightarrow> nat \<Rightarrow> 'a option" where
  "case_get vs n = (if 1 \<le> n \<and> n \<le> length vs then Some (vs ! (n - 1)) else None)"

definition next_datetime :: "int list \<Rightarrow> error + datetime option" where
  "next_datetime date_time =
     bind_err (datetime_new (datetime_defaults date_time)) (\<lambda>t1.
     bind_err (add_years1 t1) (\<lambda>c1.
     bind_err (add_months1 t1) (\<lambda>c2.
     bind_err (add_days1 t1) (\<lambda>c3.
     bind_err (add_hours1 t1) (\<lambda>c4.
     bind_err (add_minutes1 t1) (\<lambda>c5.
     bind_err (add_seconds1 t1) (\<lambda>c6.
       Inr (case_get [c1, c2, c3, c4, c5, c6] (length date_time)))))))))"

definition max_date :: string where
  "max_date = ''40000101''"

text \<open>The date string whose next unit ends the range:
  \<^verbatim>\<open>r.group(3) or (r.group(2) and max_date) or r.group(1)\<close>.\<close>

definition end_date :: "string option \<Rightarrow> string option \<Rightarrow> string option \<Rightarrow> string option" where
  "end_date g1 g2 g3 =
     (case g3 of
        Some b \<Rightarrow> Some b
      | None \<Rightarrow> (case g2 of Some h \<Rightarrow> Some max_date | None \<Rightarrow> g1))"

text \<open>
  \<^verbatim>\<open>parse_startend\<close>. \<^verbatim>\<open>if date_str\<close> is false for \<^verbatim>\<open>None\<close> and for the empty string;
  \<^verbatim>\<open>None.strftime\<close> is an \<^verbatim>\<open>AttributeError\<close>.
\<close>

definition parse_startend :: "string option \<Rightarrow> error + (int \<times> int)" where
  "parse_startend date_str =
     bind_err (unpack (parse_date (Some max_date))) (\<lambda>md.
     bind_err (datetime_new md) (\<lambda>mx.
       let start = 0; end = epoch mx in
       case date_str of
         None \<Rightarrow> Inr (start, end)
       | Some s \<Rightarrow>
           if s = [] then Inr (start, end)
           else
             (case time_startend_match s of
                None \<Rightarrow> Inr (start, end)
              | Some (g1, g2, g3) \<Rightarrow>
                  bind_err
                    (case g1 of
                       None \<Rightarrow> Inr start
                     | Some a \<Rightarrow>
                         bind_err (unpack (parse_date (Some a))) (\<lambda>cs.
                         bind_err (datetime_new (datetime_defaults cs)) (\<lambda>start_dt.
                           Inr (epoch start_dt))))
                    (\<lambda>start.
                       bind_err (unpack (parse_date (end_date g1 g2 g3))) (\<lambda>cs.
                       bind_err (next_datetime cs) (\<lambda>end_dt.
                         case end_dt of
                           None \<Rightarrow> Inl AttributeError
                         | Some t \<Rightarrow> Inr (start, epoch t)))))))"

section \<open>main: the aggregation\<close>

text \<open>
  A Python dictionary keeps its keys in the order of their first insertion; it is an
  association list with distinct keys. \<open>AList.update k v\<close> is the assignment
  \<^verbatim>\<open>d[k] = v\<close>: a key that is there keeps its place, a new key goes to the end.
\<close>

record totals =
  jobs :: int
  time :: int
  time_adj :: int

record summary = totals +
  users :: int

type_synonym user_dict = "(string \<times> totals) list"
type_synonym owner_dict = "(string \<times> user_dict) list"

definition zero_totals :: totals where
  "zero_totals = \<lparr>jobs = 0, time = 0, time_adj = 0\<rparr>"

definition zero_summary :: summary where
  "zero_summary = \<lparr>jobs = 0, time = 0, time_adj = 0, users = 0\<rparr>"

text \<open>
  The body of the first loop of \<^verbatim>\<open>main\<close>, on the dictionary \<^verbatim>\<open>owners\<close> and the lines
  written to \<^verbatim>\<open>sys.stderr\<close> so far. The entries \<^verbatim>\<open>owners[owner]\<close> and
  \<^verbatim>\<open>owners[owner][user]\<close> are created empty and zero when they are missing, the job is
  counted, and the times of \<^verbatim>\<open>core_hours\<close> are added; an exception of \<^verbatim>\<open>core_hours\<close>
  leaves the loop.
\<close>

definition record_usage ::
  "sge \<Rightarrow> job_record \<Rightarrow> owner_dict \<times> string list \<Rightarrow> error + (owner_dict \<times> string list)" where
  "record_usage env record st =
     (let owners = fst st;
          user = owner record;
          own = equip_owner record;
          data = (case map_of owners own of None \<Rightarrow> [] | Some d \<Rightarrow> d);
          e = (case map_of data user of None \<Rightarrow> zero_totals | Some e \<Rightarrow> e);
          e = e\<lparr>jobs := jobs e + 1\<rparr>
      in bind_err (core_hours env record) (\<lambda>(out, t0, t1).
           Inr (AList.update own
                  (AList.update user (e\<lparr>time := time e + t0, time_adj := time_adj e + t1\<rparr>) data)
                  owners,
                snd st @ out)))"

fun collect ::
  "sge \<Rightarrow> job_record list \<Rightarrow> owner_dict \<times> string list \<Rightarrow> error + (owner_dict \<times> string list)" where
  "collect env [] st = Inr st"
| "collect env (r # rs) st = bind_err (record_usage env r st) (collect env rs)"

text \<open>The second loop: a summary for each user, over all owners.\<close>

definition add_entry :: "totals \<Rightarrow> totals \<Rightarrow> totals" where
  "add_entry a b =
     \<lparr>jobs = jobs a + jobs b, time = time a + time b, time_adj = time_adj a + time_adj b\<rparr>"

fun user_loop :: "user_dict \<Rightarrow> user_dict \<Rightarrow> user_dict" where
  "user_loop [] us = us"
| "user_loop ((user, e) # rest) us =
     user_loop rest
       (AList.update user
          (add_entry (case map_of us user of None \<Rightarrow> zero_totals | Some u \<Rightarrow> u) e) us)"

fun owner_loop :: "owner_dict \<Rightarrow> user_dict \<Rightarrow> user_dict" where
  "owner_loop [] us = us"
| "owner_loop ((own, data) # rest) us = owner_loop rest (user_loop data us)"

definition user_summary :: "owner_dict \<Rightarrow> user_dict" where
  "user_summary owners = owner_loop owners []"

text \<open>The third loop: a summary for each owner.\<close>

fun summary_loop :: "totals list \<Rightarrow> summary \<Rightarrow> summary" where
  "summary_loop [] s = s"
| "summary_loop (user # rest) s =
     summary_loop rest
       (s\<lparr>users := users s + 1, jobs := jobs s + jobs user,
          time := time s + time user, time_adj := time_adj s + time_adj user\<rparr>)"

definition owner_summaries :: "owner_dict \<Rightarrow> (string \<times> summary) list" where
  "owner_summaries owners =
     map (\<lambda>(own, data). (own, summary_loop (map snd data) zero_summary)) owners"

text \<open>
  The three dictionaries that \<^verbatim>\<open>main\<close> hands to \<^verbatim>\<open>print_summary\<close>, and the lines on
  \<^verbatim>\<open>sys.stderr\<close>.
\<close>

definition aggregate ::
  "sge \<Rightarrow> job_record list
     \<Rightarrow> error + (owner_dict \<times> user_dict \<times> (string \<times> summary) list \<times> string list)" where
  "aggregate env records =
     bind_err (collect env records ([], [])) (\<lambda>(owners, err).
       Inr (owners, user_summary owners, owner_summaries owners, err))"

section \<open>Reading the dictionaries\<close>

text \<open>
  \<open>entry owners own user\<close> is \<^verbatim>\<open>owners[own][user]\<close> where both keys are there, and
  \<open>or_zero\<close> reads a missing entry as the zero totals it would be created with.
\<close>

definition entry :: "owner_dict \<Rightarrow> string \<Rightarrow> string \<Rightarrow> totals option" where
  "entry owners own user =
     (case map_of owners own of None \<Rightarrow> None | Some d \<Rightarrow> map_of d user)"

definition or_zero :: "totals option \<Rightarrow> totals" where
  "or_zero v = (case v of None \<Rightarrow> zero_totals | Some e \<Rightarrow> e)"

text \<open>
  The per-owner totals of one user: the entries under that user's key, one owner after
  the other.
\<close>

definition user_entries :: "owner_dict \<Rightarrow> string \<Rightarrow> totals list" where
  "user_entries owners user =
     concat (map (\<lambda>(own, data). map snd (filter (\<lambda>(u, e). u = user) data)) owners)"

definition sum_totals :: "totals list \<Rightarrow> totals" where
  "sum_totals es = foldl add_entry zero_totals es"

definition summary_totals :: "summary \<Rightarrow> totals" where
  "summary_totals s = \<lparr>jobs = jobs s, time = time s, time_adj = time_adj s\<rparr>"

section \<open>The merge of partial folds\<close>

text \<open>
  The spec's \<open>merge\<close> of two folds "adds corresponding UsageTotals fields": on two
  dictionaries of totals, read as maps, a key of both gets the sum of its two entries
  and a key of one keeps its entry. \<open>usage\<close> is the \<open>UsageTotals{1, raw, adjusted}\<close> that one
  record adds, and \<open>tally p\<close> the sum of the usages of the records that satisfy \<open>p\<close>.
\<close>

definition merge_totals :: "('k \<rightharpoonup> totals) \<Rightarrow> ('k \<rightharpoonup> totals) \<Rightarrow> ('k \<rightharpoonup> totals)" where
  "merge_totals a b =
     (\<lambda>k. case a k of
            None \<Rightarrow> b k
          | Some x \<Rightarrow> (case b k of None \<Rightarrow> Some x | Some y \<Rightarrow> Some (add_entry x y)))"

definition usage :: "sge \<Rightarrow> job_record \<Rightarrow> totals" where
  "usage env r =
     (case core_hours env r of
        Inl e \<Rightarrow> zero_totals
      | Inr (out, t0, t1) \<Rightarrow> \<lparr>jobs = 1, time = t0, time_adj = t1\<rparr>)"

definition tally :: "sge \<Rightarrow> (job_record \<Rightarrow> bool) \<Rightarrow> job_record list \<Rightarrow> totals option" where
  "tally env p rs =
     (let us = map (usage env) (filter p rs)
      in if us = [] then None else Some (sum_totals us))"

text \<open>The sum of one column over the entries of a dictionary.\<close>

definition column :: "('v \<Rightarrow> int) \<Rightarrow> (string \<times> 'v) list \<Rightarrow> int" where
  "column f d = sum_list (map (\<lambda>p. f (snd p)) d)"

text \<open>The lines that \<^verbatim>\<open>core_hours\<close> prints for a list of records.\<close>

definition stderr_lines :: "sge \<Rightarrow> job_record list \<Rightarrow> string list" where
  "stderr_lines env rs =
     concat (map (\<lambda>r. case core_hours env r of Inl e \<Rightarrow> [] | Inr (out, t0, t1) \<Rightarrow> out) rs)"

section \<open>Example inputs\<close>

text \<open>
  A small instance of the \<open>sge\<close> helpers: categories and node types are looked up in two
  tables, numbers are read by \<open>sge_number\<close>. The node type \<open>4core-64G\<close> has 16G per core.
\<close>

definition ex_categories :: "(string \<times> (string \<times> string) list) list" where
  "ex_categories =
    [(''-l h_vmem=40G,node_type=4core-64G'',
        [(''h_vmem'', ''40G''), (''node_type'', ''4core-64G'')]),
     (''-l h_vmem=0,node_type=4core-64G'',
        [(''h_vmem'', ''0''), (''node_type'', ''4core-64G'')]),
     (''-l h_vmem=1G'', [(''h_vmem'', ''1G'')]),
     (''-l h_rt=3600'', [(''h_rt'', ''3600'')])]"

definition ex_node_types :: "(string \<times> (string \<times> string) list) list" where
  "ex_node_types = [(''4core-64G'', [(''num_pe'', ''4''), (''memory'', ''64G'')])]"

definition ex_sge :: sge where
  "ex_sge =
     \<lparr>category_resource =
        (\<lambda>c k. case map_of ex_categories c of None \<Rightarrow> None | Some kv \<Rightarrow> map_of kv k),
      node_type =
        (\<lambda>nt k. case map_of ex_node_types nt of None \<Rightarrow> None | Some kv \<Rightarrow> map_of kv k),
      number = sge_number\<rparr>"

definition ex_job :: "string \<Rightarrow> string \<Rightarrow> job_record" where
  "ex_job host cat =
     \<lparr>name = ''job1'', owner = ''alice'', equip_owner = ''ENV'', hostname = host,
      category = cat, ru_wallclock = 3600, slots = 4\<rparr>"

text \<open>
  Three records: a job of \<open>alice\<close> on equipment of \<open>ENV\<close> with a request of 40G on a node
  with 16G per core, a job of \<open>bob\<close> on \<open>ENV\<close> on the host \<open>h7s3b15n01\<close> with a request of
  1G and no node type, and a job of \<open>alice\<close> on equipment of \<open>MAPS\<close> with no memory request.
\<close>

definition ex_records :: "job_record list" where
  "ex_records =
     [ex_job ''node1'' ''-l h_vmem=40G,node_type=4core-64G'',
      (ex_job ''h7s3b15n01'' ''-l h_vmem=1G'')\<lparr>name := ''job2'', owner := ''bob''\<rparr>,
      (ex_job ''node1'' ''-l h_rt=3600'')\<lparr>name := ''job3'', equip_owner := ''MAPS''\<rparr>]"

section \<open>Properties of core_hours\<close>

text \<open>
  Below \<open>2 ^ 53\<close> the double arithmetic is exact where it matters: both operands are
  doubles, and the rounded quotient has the ceiling of the exact one, because a quotient
  that is not an integer is at least \<open>1 / \<bar>m\<bar>\<close> away from the integers and the rounding
  moves it by less.
\<close>

lemma exponent_le:
  assumes "x \<noteq> 0"
  shows "2 powi exponent x \<le> \<bar>x\<bar>"
proof -
  obtain n d where nd: "quotient_of \<bar>x\<bar> = (n, d)" by (cases "quotient_of \<bar>x\<bar>")
  have d: "0 < d" using nd by (rule quotient_of_denom_pos)
  have x: "\<bar>x\<bar> = of_int n / of_int d" using nd by (rule quotient_of_div)
  have "0 < \<bar>x\<bar>" using assms by simp
  then have n: "0 < n" using d by (simp add: x zero_less_divide_iff)
  define k where "k = bitlen n - bitlen d"
  have e: "exponent x = (if 2 powi k \<le> \<bar>x\<bar> then k else k - 1)"
    by (simp add: exponent_def nd k_def Let_def)
  show ?thesis
  proof (cases "2 powi k \<le> \<bar>x\<bar>")
    case True
    then show ?thesis by (simp add: e)
  next
    case False
    have bn: "1 \<le> bitlen n" "2 ^ nat (bitlen n - 1) \<le> n"
      using bitlen_bounds [OF n] n by (auto simp: bitlen_alt_def)
    have bd: "1 \<le> bitlen d" "d < 2 ^ nat (bitlen d)"
      using bitlen_bounds [OF d] d by (auto simp: bitlen_alt_def)
    have "(2::rat) powi (k - 1) = 2 powi (bitlen n - 1) / 2 powi bitlen d"
      unfolding k_def using power_int_diff [of "2::rat" "bitlen n - 1" "bitlen d"]
      by (simp add: algebra_simps)
    also have "(2::rat) powi (bitlen n - 1) = of_int (2 ^ nat (bitlen n - 1))"
      using bn(1) by (simp add: power_int_def)
    also have "(2::rat) powi bitlen d = of_int (2 ^ nat (bitlen d))"
      using bd(1) by (simp add: power_int_def)
    also have "(of_int (2 ^ nat (bitlen n - 1)) :: rat) / of_int (2 ^ nat (bitlen d))
        \<le> of_int n / of_int d"
    proof (rule frac_le)
      show "(0::rat) \<le> of_int n" using n by simp
      show "(of_int (2 ^ nat (bitlen n - 1)) :: rat) \<le> of_int n"
        using bn(2) by (simp only: of_int_le_iff)
      show "(0::rat) < of_int d" using d by simp
      show "(of_int d :: rat) \<le> of_int (2 ^ nat (bitlen d))"
        using bd(2) by (simp only: of_int_le_iff)
    qed
    finally show ?thesis using False by (simp add: e x)
  qed
qed

lemma round_half_even_error: "\<bar>of_int (round_half_even y) - y\<bar> \<le> 1 / 2"
proof -
  have "of_int \<lfloor>y\<rfloor> \<le> y" "y < of_int \<lfloor>y\<rfloor> + 1" by linarith+
  then show ?thesis
    by (auto simp: round_half_even_def Let_def abs_le_iff)
qed

lemma round_half_even_int: "round_half_even (of_int i) = i"
  by (simp add: round_half_even_def)

lemma round_double_error:
  assumes "x \<noteq> 0"
  shows "\<bar>round_double x - x\<bar> \<le> 2 powi (max (exponent x) (- 1022) - 52) / 2"
proof -
  define ulp :: rat where "ulp = 2 powi (max (exponent x) (- 1022) - 52)"
  have u: "0 < ulp" by (simp add: ulp_def)
  have "round_double x - x = (of_int (round_half_even (x / ulp)) - x / ulp) * ulp"
    using assms u by (simp add: round_double_def ulp_def [symmetric] Let_def algebra_simps)
  then have "\<bar>round_double x - x\<bar> = \<bar>of_int (round_half_even (x / ulp)) - x / ulp\<bar> * ulp"
    using u by (simp add: abs_mult)
  also have "\<dots> \<le> 1 / 2 * ulp"
    using round_half_even_error [of "x / ulp"] u by (intro mult_right_mono) simp_all
  finally show ?thesis by (simp add: ulp_def)
qed

lemma pow53_le: "(2::rat) ^ 53 \<le> 2 powi 1024"
proof -
  have "(2::rat) powi 53 \<le> 2 powi 1024" by (rule power_int_increasing) simp_all
  then show ?thesis by (simp add: power_int_def)
qed

lemma round_double_int:
  assumes "\<bar>i\<bar> < 2 ^ 53"
  shows "round_double (of_int i) = of_int i"
proof (cases "i = 0")
  case True
  then show ?thesis by (simp add: round_double_def)
next
  case False
  let ?x = "of_int i :: rat"
  have x: "?x \<noteq> 0" using False by simp
  have "\<bar>?x\<bar> < 2 ^ 53"
    using assms by (metis of_int_abs of_int_less_iff of_int_numeral of_int_power)
  then have lt: "2 powi exponent ?x < (2::rat) powi 53"
    using exponent_le [OF x] by (simp add: power_int_def)
  have e: "exponent ?x \<le> 52"
  proof (rule ccontr)
    assume "\<not> exponent ?x \<le> 52"
    then have "53 \<le> exponent ?x" by simp
    then have "(2::rat) powi 53 \<le> 2 powi exponent ?x"
      by (rule power_int_increasing) simp
    then show False using lt by simp
  qed
  define j where "j = nat (52 - max (exponent ?x) (- 1022))"
  have "max (exponent ?x) (- 1022) - 52 = - int j" using e by (simp add: j_def)
  then have ulp: "(2::rat) powi (max (exponent ?x) (- 1022) - 52) = inverse (2 ^ j)"
    by (simp add: power_int_minus)
  have "?x / inverse (2 ^ j) = of_int (i * 2 ^ j)" by (simp add: field_simps)
  then have "round_half_even (?x / inverse (2 ^ j)) = i * 2 ^ j"
    by (simp only: round_half_even_int)
  then show ?thesis
    using x by (simp add: round_double_def ulp Let_def)
qed

lemma to_float_small:
  assumes "\<bar>i\<bar> < 2 ^ 53"
  shows "to_float i = Inr (of_int i)"
proof -
  have "\<bar>of_int i :: rat\<bar> < 2 ^ 53"
    using assms by (metis of_int_abs of_int_less_iff of_int_numeral of_int_power)
  then have "\<not> 2 powi 1024 \<le> \<bar>of_int i :: rat\<bar>"
    using pow53_le by linarith
  then show ?thesis
    by (simp add: to_float_def round_double_int [OF assms] Let_def)
qed

lemma ceiling_close:
  fixes x y d :: rat
  assumes "of_int n + d \<le> y" and "y \<le> of_int n + 1 - d" and "\<bar>x - y\<bar> < d"
  shows "\<lceil>x\<rceil> = n + 1" and "\<lceil>y\<rceil> = n + 1"
proof -
  have "of_int (n + 1) - 1 < x" "x \<le> of_int (n + 1)" using assms by (simp_all add: abs_less_iff)
  then show "\<lceil>x\<rceil> = n + 1" by (rule ceiling_unique)
  have "of_int (n + 1) - 1 < y" "y \<le> of_int (n + 1)" using assms by (simp_all add: abs_less_iff)
  then show "\<lceil>y\<rceil> = n + 1" by (rule ceiling_unique)
qed

lemma frac_gap:
  assumes "0 < M" and "\<not> M dvd Q"
  shows "of_int (Q div M) + 1 / of_int M \<le> (of_int Q / of_int M :: rat)"
    and "(of_int Q / of_int M :: rat) \<le> of_int (Q div M) + 1 - 1 / of_int M"
proof -
  have "Q mod M \<noteq> 0" using assms(2) by (simp add: dvd_eq_mod_eq_0)
  then have r: "1 \<le> Q mod M" "Q mod M \<le> M - 1"
    using pos_mod_sign [OF assms(1), of Q] pos_mod_bound [OF assms(1), of Q]
    by linarith+
  have "Q = M * (Q div M) + Q mod M" by simp
  then have "(of_int Q :: rat) = of_int M * of_int (Q div M) + of_int (Q mod M)"
    by (metis of_int_add of_int_mult)
  then have q: "(of_int Q / of_int M :: rat) = of_int (Q div M) + of_int (Q mod M) / of_int M"
    using assms(1) by (simp add: field_simps)
  have a: "(1::rat) / of_int M \<le> of_int (Q mod M) / of_int M"
    using r(1) assms(1) by (simp add: divide_right_mono)
  have "(of_int (Q mod M) :: rat) \<le> of_int M - 1"
    using r(2) by (metis of_int_1 of_int_diff of_int_le_iff)
  then have "(of_int (Q mod M) / of_int M :: rat) \<le> (of_int M - 1) / of_int M"
    using assms(1) by (simp add: divide_right_mono)
  also have "\<dots> = 1 - 1 / of_int M" using assms(1) by (simp add: field_simps)
  finally have b: "(of_int (Q mod M) / of_int M :: rat) \<le> 1 - 1 / of_int M" .
  show "of_int (Q div M) + 1 / of_int M \<le> (of_int Q / of_int M :: rat)"
    unfolding q using a by simp
  show "(of_int Q / of_int M :: rat) \<le> of_int (Q div M) + 1 - 1 / of_int M"
    unfolding q using b by simp
qed

lemma pow54_le: "(2::rat) ^ 53 + 1 \<le> 2 powi 1024"
proof -
  have "(2::rat) powi 54 \<le> 2 powi 1024" by (rule power_int_increasing) simp_all
  then show ?thesis by (simp add: power_int_def)
qed

lemma round_quot:
  assumes q: "\<bar>q\<bar> < 2 ^ 53" and m: "\<bar>m\<bar> < 2 ^ 53" and m0: "m \<noteq> 0"
  shows "\<lceil>round_double (of_int q / of_int m)\<rceil> = \<lceil>of_int q / of_int m :: rat\<rceil>"
    and "\<not> 2 powi 1024 \<le> \<bar>round_double (of_int q / of_int m)\<bar>"
proof -
  let ?y = "of_int q / of_int m :: rat"
  have goal: "\<lceil>round_double ?y\<rceil> = \<lceil>?y\<rceil> \<and> \<bar>round_double ?y\<bar> < 2 ^ 53 + 1"
  proof (cases "m dvd q")
    case True
    then obtain c where c: "q = m * c" by (auto simp: dvd_def)
    have "1 \<le> \<bar>m\<bar>" using m0 by simp
    then have "1 * \<bar>c\<bar> \<le> \<bar>m\<bar> * \<bar>c\<bar>" by (intro mult_right_mono) simp_all
    then have "\<bar>c\<bar> \<le> \<bar>m\<bar> * \<bar>c\<bar>" by simp
    then have "\<bar>c\<bar> < 2 ^ 53" using q by (simp add: c abs_mult)
    then have r: "round_double (of_int c) = of_int c" by (rule round_double_int)
    have y: "?y = of_int c" using m0 by (simp add: c)
    have "\<bar>of_int c :: rat\<bar> < 2 ^ 53"
      using \<open>\<bar>c\<bar> < 2 ^ 53\<close> by (metis of_int_abs of_int_less_iff of_int_numeral of_int_power)
    then show ?thesis unfolding y r by simp
  next
    case False
    define M where "M = \<bar>m\<bar>"
    define Q where "Q = (if 0 < m then q else - q)"
    have M: "0 < M" "M < 2 ^ 53" using m m0 by (simp_all add: M_def)
    have Q: "\<bar>Q\<bar> < 2 ^ 53" using q by (simp add: Q_def)
    have nd: "\<not> M dvd Q" using False by (simp add: M_def Q_def)
    have y: "?y = of_int Q / of_int M"
      using m0 by (auto simp: M_def Q_def abs_if)
    define d :: rat where "d = 1 / of_int M"
    define n where "n = Q div M"
    have gap: "of_int n + d \<le> ?y" "?y \<le> of_int n + 1 - d"
      unfolding y n_def d_def by (rule frac_gap [OF M(1) nd])+
    have Mr: "(0::rat) < of_int M" "(of_int M :: rat) < 2 ^ 53"
      using M by (simp, metis of_int_less_iff of_int_numeral of_int_power)
    have Qr: "\<bar>of_int Q :: rat\<bar> < 2 ^ 53"
      using Q by (metis of_int_abs of_int_less_iff of_int_numeral of_int_power)
    have "Q \<noteq> 0" using nd by auto
    then have y0: "?y \<noteq> 0" using M(1) by (simp add: y)
    define ulp :: rat where "ulp = 2 powi (max (exponent ?y) (- 1022) - 52)"
    have err: "\<bar>round_double ?y - ?y\<bar> \<le> ulp / 2"
      unfolding ulp_def by (rule round_double_error [OF y0])
    have ya: "\<bar>?y\<bar> = \<bar>of_int Q\<bar> / of_int M"
      using M(1) by (simp add: y)
    have "ulp / 2 < d"
    proof (cases "- 1022 \<le> exponent ?y")
      case True
      then have "ulp = 2 powi exponent ?y / 2 powi 52"
        by (simp add: ulp_def power_int_diff)
      also have "\<dots> \<le> \<bar>?y\<bar> / 2 powi 52"
        using exponent_le [OF y0] by (intro divide_right_mono) simp_all
      finally have "ulp / 2 \<le> \<bar>?y\<bar> / 2 ^ 53" by (simp add: power_int_def)
      also have "\<dots> = (\<bar>of_int Q\<bar> / 2 ^ 53) * d"
        unfolding ya d_def by simp
      also have "\<dots> < 1 * d"
      proof (rule mult_strict_right_mono)
        show "\<bar>of_int Q :: rat\<bar> / 2 ^ 53 < 1" using Qr by simp
        show "0 < d" using Mr(1) by (simp add: d_def)
      qed
      finally show ?thesis by simp
    next
      case False
      then have "ulp = 2 powi (- 1074)" by (simp add: ulp_def max_def)
      also have "\<dots> \<le> (2::rat) powi (- 52)" by (rule power_int_increasing) simp_all
      finally have "ulp / 2 \<le> 1 / 2 ^ 53" by (simp add: power_int_def field_simps)
      also have "\<dots> < d"
        unfolding d_def using Mr by (intro divide_strict_left_mono) simp_all
      finally show ?thesis .
    qed
    with err have close: "\<bar>round_double ?y - ?y\<bar> < d" by simp
    have c: "\<lceil>round_double ?y\<rceil> = \<lceil>?y\<rceil>"
      using ceiling_close [OF gap close] by simp
    have "d \<le> 1" using M(1) by (simp add: d_def)
    have "\<bar>?y\<bar> \<le> \<bar>of_int Q\<bar>"
      unfolding ya using M(1) by (simp add: divide_le_eq mult_le_cancel_left1)
    then have "\<bar>round_double ?y\<bar> < 2 ^ 53 + 1"
      using close \<open>d \<le> 1\<close> Qr by linarith
    with c show ?thesis by simp
  qed
  show "\<lceil>round_double ?y\<rceil> = \<lceil>?y\<rceil>" using goal by simp
  show "\<not> 2 powi 1024 \<le> \<bar>round_double ?y\<bar>" using goal pow54_le by linarith
qed

lemma ceil_quot_exact:
  assumes "\<bar>q\<bar> < 2 ^ 53" and "\<bar>m\<bar> < 2 ^ 53" and "m \<noteq> 0"
  shows "ceil_quot q m = Inr \<lceil>of_int q / of_int m :: rat\<rceil>"
proof -
  have a: "to_float q = Inr (of_int q)" "to_float m = Inr (of_int m)"
    using assms by (simp_all only: to_float_small)
  have b: "(of_int m :: rat) = 0 \<longleftrightarrow> False" using assms(3) by simp
  show ?thesis
    by (simp only: ceil_quot_def a bind_err_def sum.case Let_def b if_False
          round_quot [OF assms])
qed

lemma ceiling_quot_div: "\<lceil>of_int q / of_int m :: rat\<rceil> = - ((- q) div m)"
proof -
  have "- (of_int q / of_int m :: rat) = of_int (- q) / of_int m" by simp
  then show ?thesis unfolding ceiling_def by (simp only: floor_divide_of_int_eq)
qed

lemma ceil_quot_div:
  assumes "\<bar>q\<bar> < 2 ^ 53" and "\<bar>m\<bar> < 2 ^ 53" and "m \<noteq> 0"
  shows "ceil_quot q m = Inr (- ((- q) div m))"
  by (simp only: ceil_quot_exact [OF assms] ceiling_quot_div)

lemma ceiling_quot_real: "\<lceil>real_of_int q / real_of_int m\<rceil> = - ((- q) div m)"
proof -
  have "- (real_of_int q / real_of_int m) = real_of_int (- q) / real_of_int m" by simp
  then show ?thesis unfolding ceiling_def by (simp only: floor_divide_of_int_eq)
qed

lemma ceil_quot_code [code]:
  "ceil_quot q m =
     (if \<bar>q\<bar> < 2 ^ 53 \<and> \<bar>m\<bar> < 2 ^ 53 \<and> m \<noteq> 0 then Inr (- ((- q) div m))
      else bind_err (to_float m) (\<lambda>b.
           bind_err (to_float q) (\<lambda>a.
             if b = 0 then Inl ZeroDivisionError
             else (let x = round_double (a / b)
                   in if 2 powi 1024 \<le> \<bar>x\<bar> then Inl OverflowError else Inr \<lceil>x\<rceil>))))"
proof (cases "\<bar>q\<bar> < 2 ^ 53 \<and> \<bar>m\<bar> < 2 ^ 53 \<and> m \<noteq> 0")
  case True
  then have "ceil_quot q m = Inr (- ((- q) div m))" by (intro ceil_quot_div) simp_all
  then show ?thesis by (simp only: if_P [OF True])
next
  case False
  then show ?thesis by (simp only: if_False ceil_quot_def)
qed

text \<open>
  \<open>exponent\<close> is the binade of its argument, a power of two in the normal range is a
  double, and the conversion of \<open>2 ^ 1024\<close> overflows.
\<close>

lemma exponent_less:
  assumes "x \<noteq> 0"
  shows "\<bar>x\<bar> < 2 powi (exponent x + 1)"
proof -
  obtain n d where nd: "quotient_of \<bar>x\<bar> = (n, d)" by (cases "quotient_of \<bar>x\<bar>")
  have d: "0 < d" using nd by (rule quotient_of_denom_pos)
  have x: "\<bar>x\<bar> = of_int n / of_int d" using nd by (rule quotient_of_div)
  have "0 < \<bar>x\<bar>" using assms by simp
  then have n: "0 < n" using d by (simp add: x zero_less_divide_iff)
  define k where "k = bitlen n - bitlen d"
  have e: "exponent x = (if 2 powi k \<le> \<bar>x\<bar> then k else k - 1)"
    by (simp add: exponent_def nd k_def Let_def)
  show ?thesis
  proof (cases "2 powi k \<le> \<bar>x\<bar>")
    case False
    then show ?thesis by (simp add: e)
  next
    case True
    have bn: "1 \<le> bitlen n" "n < 2 ^ nat (bitlen n)"
      using bitlen_bounds [OF n] n by (auto simp: bitlen_alt_def)
    have bd: "1 \<le> bitlen d" "2 ^ nat (bitlen d - 1) \<le> d"
      using bitlen_bounds [OF d] d by (auto simp: bitlen_alt_def)
    have "(of_int n :: rat) / of_int d < of_int (2 ^ nat (bitlen n)) / of_int (2 ^ nat (bitlen d - 1))"
    proof (rule frac_less)
      show "(0::rat) \<le> of_int n" using n by simp
      show "(of_int n :: rat) < of_int (2 ^ nat (bitlen n))"
        using bn(2) by (simp only: of_int_less_iff)
      show "(0::rat) < of_int (2 ^ nat (bitlen d - 1))" by simp
      show "(of_int (2 ^ nat (bitlen d - 1)) :: rat) \<le> of_int d"
        using bd(2) by (simp only: of_int_le_iff)
    qed
    also have "(of_int (2 ^ nat (bitlen n)) :: rat) = 2 powi bitlen n"
      using bn(1) by (simp add: power_int_def)
    also have "(of_int (2 ^ nat (bitlen d - 1)) :: rat) = 2 powi (bitlen d - 1)"
      using bd(1) by (simp add: power_int_def)
    also have "(2::rat) powi bitlen n / 2 powi (bitlen d - 1) = 2 powi (k + 1)"
      unfolding k_def using power_int_diff [of "2::rat" "bitlen n" "bitlen d - 1"]
      by (simp add: algebra_simps)
    finally show ?thesis using True by (simp add: e x)
  qed
qed

lemma exponent_unique:
  assumes "2 powi e \<le> \<bar>x\<bar>" and "\<bar>x\<bar> < 2 powi (e + 1)"
  shows "exponent x = e"
proof -
  have p: "(0::rat) < 2 powi e" by simp
  have x: "x \<noteq> 0"
  proof
    assume "x = 0"
    with assms(1) have "(2::rat) powi e \<le> 0" by simp
    with p show False by linarith
  qed
  have lo: "2 powi exponent x \<le> \<bar>x\<bar>" using x by (rule exponent_le)
  have hi: "\<bar>x\<bar> < 2 powi (exponent x + 1)" using x by (rule exponent_less)
  have "\<not> exponent x < e"
  proof
    assume "exponent x < e"
    then have "(2::rat) powi (exponent x + 1) \<le> 2 powi e"
      by (intro power_int_increasing) simp_all
    then show False using hi assms(1) by linarith
  qed
  moreover have "\<not> e < exponent x"
  proof
    assume "e < exponent x"
    then have "(2::rat) powi (e + 1) \<le> 2 powi exponent x"
      by (intro power_int_increasing) simp_all
    then show False using lo assms(2) by linarith
  qed
  ultimately show ?thesis by linarith
qed

lemma round_double_pow: 
  assumes "- 1022 \<le> k"
  shows "round_double (2 powi k) = 2 powi k"
proof -
  have e: "exponent (2 powi k) = k"
    by (rule exponent_unique) (simp_all add: power_int_strict_increasing)
  have "(2::rat) powi k / 2 powi (k - 52) = 2 powi 52"
    using power_int_diff [of "2::rat" k "k - 52"] by simp
  also have "\<dots> = of_int (2 ^ 52)" by (simp add: power_int_def)
  finally have q: "(2::rat) powi k / 2 powi (k - 52) = of_int (2 ^ 52)" .
  have "of_int (2 ^ 52) * (2::rat) powi (k - 52) = 2 powi 52 * 2 powi (k - 52)"
    by (simp add: power_int_def)
  also have "\<dots> = 2 powi k"
    using power_int_add [of "2::rat" 52 "k - 52"] by simp
  finally have r: "of_int (2 ^ 52) * (2::rat) powi (k - 52) = 2 powi k" .
  have m: "max k (- 1022) = k" using assms by simp
  show ?thesis
    unfolding round_double_def e Let_def m q round_half_even_int r by simp
qed

lemma to_float_overflow: "to_float (2 ^ 1024) = Inl OverflowError"
proof -
  have "(of_int (2 ^ 1024) :: rat) = 2 powi 1024" by (simp add: power_int_def)
  then have "round_double (of_int (2 ^ 1024)) = 2 powi 1024"
    by (simp only: round_double_pow)
  then show ?thesis unfolding to_float_def Let_def by simp
qed

lemma ceil_quot_overflow: "ceil_quot (2 ^ 1024) 1 = Inl OverflowError"
proof -
  have "to_float 1 = Inr 1" using to_float_small [of 1] by simp
  then show ?thesis by (simp only: ceil_quot_def bind_err_def to_float_overflow sum.case)
qed

lemma ceil_quot_zero:
  assumes "\<bar>q\<bar> < 2 ^ 53"
  shows "ceil_quot q 0 = Inl ZeroDivisionError"
proof -
  have "to_float 0 = Inr 0" using to_float_small [of 0] by simp
  then show ?thesis by (simp add: ceil_quot_def bind_err_def to_float_small [OF assms])
qed

text \<open>
  From \<open>2 ^ 53\<close> upwards the rounding shows: \<open>2 ^ 54 + 1\<close> is converted to \<open>2 ^ 54\<close>, and
  the quotient by \<open>2 ^ 34\<close> has the ceiling \<open>2 ^ 20\<close>, one less than the ceiling of the
  exact quotient.
\<close>

lemma round_double_2_54: "round_double 18014398509481985 = 18014398509481984"
  by code_simp

lemma round_double_2_20: "round_double (18014398509481984 / 17179869184) = 1048576"
  by code_simp

lemma below_overflow: "\<bar>x\<bar> \<le> 2 ^ 54 \<Longrightarrow> \<not> (2::rat) powi 1024 \<le> \<bar>x\<bar>"
proof -
  assume a: "\<bar>x\<bar> \<le> 2 ^ 54"
  have "(2::rat) powi 54 < 2 powi 1024" by (rule power_int_strict_increasing) simp_all
  then have "(2::rat) ^ 54 < 2 powi 1024" by (simp add: power_int_def)
  with a show ?thesis by linarith
qed

lemma to_float_2_54: "to_float 18014398509481985 = Inr 18014398509481984"
  unfolding to_float_def Let_def
  by (simp only: of_int_numeral round_double_2_54) (simp add: below_overflow)

lemma to_float_2_34: "to_float 17179869184 = Inr 17179869184"
  using to_float_small [of 17179869184] by simp

lemma ceil_quot_rounded:
  "ceil_quot 18014398509481985 17179869184 = Inr 1048576
   \<and> \<lceil>18014398509481985 / 17179869184 :: rat\<rceil> = 1048577"
proof -
  have "ceil_quot 18014398509481985 17179869184 = Inr 1048576"
    unfolding ceil_quot_def to_float_2_54 to_float_2_34 bind_err_def Let_def
    by (simp only: sum.case round_double_2_20) (simp add: below_overflow)
  moreover have "\<lceil>18014398509481985 / 17179869184 :: rat\<rceil> = 1048577"
    using ceiling_quot_div [of 18014398509481985 17179869184] by simp
  ultimately show ?thesis by simp
qed

lemmas number_defs = sge_number_def is_digit_def suffix_factor_def int_of_digits_def digit_val_def

lemmas ex_defs = ex_sge_def ex_job_def ex_categories_def ex_node_types_def

lemma backup_example: "backup_loop backup_node_mpc ''h7s3b15n01'' None = Some 2147483648"
  by (simp add: backup_node_mpc_def re_match_def number_defs)

lemma ex_mem_core:
  "job_mem_core ex_sge (ex_job ''node1'' ''-l h_vmem=40G,node_type=4core-64G'') = Some 17179869184"
  "job_mem_core ex_sge (ex_job ''node1'' ''-l h_vmem=0,node_type=4core-64G'') = Some 17179869184"
  by (simp_all add: job_mem_core_def node_mem_core_def ex_defs number_defs)

lemma ex_mem_req:
  "job_mem_req ex_sge (ex_job ''node1'' ''-l h_vmem=40G,node_type=4core-64G'') = ReqNum 42949672960"
  "job_mem_req ex_sge (ex_job ''node1'' ''-l h_vmem=0,node_type=4core-64G'') = ReqNum 0"
  "job_mem_req ex_sge (ex_job ''node1'' ''-l h_rt=3600'') = ReqNone"
  by (simp_all add: job_mem_req_def ex_defs number_defs)

lemma backup_loop_none:
  "\<forall>b\<in>set bs. \<not> re_match (re b) h \<Longrightarrow> backup_loop bs h mc = mc"
  by (induction bs arbitrary: mc) auto

lemma backup_loop_some:
  "\<exists>b\<in>set bs. re_match (re b) h \<Longrightarrow> \<exists>v. backup_loop bs h mc = Some v"
proof (induction bs arbitrary: mc)
  case Nil
  then show ?case by simp
next
  case (Cons b bs)
  show ?case
  proof (cases "\<exists>b\<in>set bs. re_match (re b) h")
    case True
    then show ?thesis using Cons.IH by simp
  next
    case False
    then have "re_match (re b) h" using Cons.prems by auto
    moreover have "\<forall>b\<in>set bs. \<not> re_match (re b) h" using False by blast
    ultimately show ?thesis by (simp add: backup_loop_none)
  qed
qed

text \<open>
  The loop returns the memory per core of the last rule that matches, whatever the
  table.
\<close>

lemma backup_loop_append:
  "backup_loop (bs @ cs) h mc = backup_loop cs h (backup_loop bs h mc)"
  by (induction bs arbitrary: mc) simp_all

lemma backup_loop_last_match:
  "backup_loop bs h mc =
     (if filter (\<lambda>b. re_match (re b) h) bs = [] then mc
      else Some (mpc (last (filter (\<lambda>b. re_match (re b) h) bs))))"
proof (induction bs arbitrary: mc rule: rev_induct)
  case Nil
  then show ?case by simp
next
  case (snoc b bs)
  show ?case
    unfolding backup_loop_append snoc.IH by simp
qed

text \<open>
  \<^verbatim>\<open>mem_core\<close> stays \<^verbatim>\<open>None\<close> exactly when the node type gives nothing and no rule of the
  table matches the hostname.
\<close>

lemma job_mem_core_None:
  "job_mem_core env r = None \<longleftrightarrow>
     node_mem_core env r = None \<and> (\<forall>b\<in>set backup_node_mpc. \<not> re_match (re b) (hostname r))"
proof (cases "\<exists>b\<in>set backup_node_mpc. re_match (re b) (hostname r)")
  case True
  then have "\<exists>v. backup_loop backup_node_mpc (hostname r) mc = Some v" for mc
    by (rule backup_loop_some)
  then obtain v w where "backup_loop backup_node_mpc (hostname r) None = Some v"
    and "backup_loop backup_node_mpc (hostname r) (Some 0) = Some w"
    by metis
  then show ?thesis using True by (auto simp: job_mem_core_def Let_def)
next
  case False
  then have "backup_loop backup_node_mpc (hostname r) mc = mc" for mc
    using backup_loop_none by blast
  then show ?thesis using False by (auto simp: job_mem_core_def Let_def)
qed

lemma core_hours_warn:
  assumes "job_mem_req env r = ReqNone \<or> job_mem_core env r = None"
  shows "core_hours env r = Inr ([warning r], ru_wallclock r * slots r, ru_wallclock r * slots r)"
  using assms by (auto simp: core_hours_def Let_def split: mem_request.splits option.splits)

lemma entry_update:
  "entry (AList.update own (AList.update user e data) owners) own user = Some e"
  by (simp add: entry_def update_conv')

text \<open>
  C1, as the code has it. When \<^verbatim>\<open>sge.number\<close> reads the memory request as \<open>q\<close>, the
  memory per core \<open>m\<close> is known and not zero, and both are below \<open>2 ^ 53\<close> in absolute
  value (8 PiB, the range in which the double quotient of the code has the ceiling of
  the exact one), \<^verbatim>\<open>core_hours\<close> prints nothing and returns
  \<open>raw = ru_wallclock * slots\<close> and \<open>adjusted = raw * ceil(q / m)\<close>. The multiplier is at
  least 1 when \<open>q\<close> and \<open>m\<close> are positive, and then \<open>adjusted \<ge> raw\<close> for a raw time that
  is not negative.
\<close>

theorem core_hours_adjusted:
  assumes "job_mem_req env r = ReqNum q" and "job_mem_core env r = Some m" and "m \<noteq> 0"
    and "\<bar>q\<bar> < 2 ^ 53" and "\<bar>m\<bar> < 2 ^ 53"
  shows "core_hours env r =
           Inr ([], ru_wallclock r * slots r,
                ru_wallclock r * slots r * \<lceil>real_of_int q / real_of_int m\<rceil>)
         \<and> (0 < q \<and> 0 < m \<longrightarrow> 1 \<le> \<lceil>real_of_int q / real_of_int m\<rceil>)
         \<and> (0 < q \<and> 0 < m \<and> 0 \<le> ru_wallclock r * slots r \<longrightarrow>
              ru_wallclock r * slots r
                \<le> ru_wallclock r * slots r * \<lceil>real_of_int q / real_of_int m\<rceil>)"
proof -
  have "ceil_quot q m = Inr (- ((- q) div m))"
    using assms(4,5,3) by (rule ceil_quot_div)
  then have cq: "ceil_quot q m = Inr \<lceil>real_of_int q / real_of_int m\<rceil>"
    by (simp only: ceiling_quot_real)
  have ch: "core_hours env r =
      Inr ([], ru_wallclock r * slots r,
           ru_wallclock r * slots r * \<lceil>real_of_int q / real_of_int m\<rceil>)"
    using assms(1,2) by (simp add: core_hours_def cq bind_err_def Let_def)
  have ge: "1 \<le> \<lceil>real_of_int q / real_of_int m\<rceil>" if "0 < q" "0 < m"
  proof -
    have "0 < real_of_int q / real_of_int m" using that by simp
    then show ?thesis by simp
  qed
  have mono: "ru_wallclock r * slots r
      \<le> ru_wallclock r * slots r * \<lceil>real_of_int q / real_of_int m\<rceil>"
    if "0 < q" "0 < m" "0 \<le> ru_wallclock r * slots r"
    using mult_left_mono [OF ge [OF that(1,2)] that(3)] by simp
  show ?thesis using ch ge mono by blast
qed

text \<open>
  The example of the spec: 3600 s on 4 slots, 16G per core, a request of 40G give
  \<open>raw = 14400\<close>, the multiplier 3 and \<open>adjusted = 43200\<close>.
\<close>

theorem core_hours_adjusted_witness:
  "job_mem_req ex_sge (ex_job ''node1'' ''-l h_vmem=40G,node_type=4core-64G'') = ReqNum 42949672960
   \<and> job_mem_core ex_sge (ex_job ''node1'' ''-l h_vmem=40G,node_type=4core-64G'') = Some 17179869184
   \<and> \<bar>42949672960 :: int\<bar> < 2 ^ 53 \<and> \<bar>17179869184 :: int\<bar> < 2 ^ 53
   \<and> core_hours ex_sge (ex_job ''node1'' ''-l h_vmem=40G,node_type=4core-64G'')
       = Inr ([], 14400, 43200)
   \<and> \<lceil>real_of_int 42949672960 / real_of_int 17179869184\<rceil> = 3"
proof -
  let ?r = "ex_job ''node1'' ''-l h_vmem=40G,node_type=4core-64G''"
  have c: "\<lceil>real_of_int 42949672960 / real_of_int 17179869184\<rceil> = 3"
    by (simp add: ceiling_quot_real)
  have j: "ru_wallclock ?r * slots ?r = 14400"
    by (simp add: ex_job_def)
  have b: "\<bar>42949672960 :: int\<bar> < 2 ^ 53" "\<bar>17179869184 :: int\<bar> < 2 ^ 53" "(17179869184 :: int) \<noteq> 0"
    by simp_all
  from core_hours_adjusted [OF ex_mem_req(1) ex_mem_core(1) b(3) b(1) b(2)]
  have "core_hours ex_sge ?r = Inr ([], 14400, 14400 * \<lceil>real_of_int 42949672960 / real_of_int 17179869184\<rceil>)"
    unfolding j by simp
  then have "core_hours ex_sge ?r = Inr ([], 14400, 43200)"
    unfolding c by simp
  then show ?thesis
    using ex_mem_req(1) ex_mem_core(1) c b by blast
qed

text \<open>
  C1 as stated fails for a request of zero bytes: the multiplier is \<open>ceil(0 / m) = 0\<close>,
  and the adjusted time 0 is below the raw time 14400.
\<close>

theorem core_hours_zero_request:
  "job_mem_req ex_sge (ex_job ''node1'' ''-l h_vmem=0,node_type=4core-64G'') = ReqNum 0
   \<and> job_mem_core ex_sge (ex_job ''node1'' ''-l h_vmem=0,node_type=4core-64G'') = Some 17179869184
   \<and> core_hours ex_sge (ex_job ''node1'' ''-l h_vmem=0,node_type=4core-64G'')
       = Inr ([], 14400, 0)"
  by (simp add: core_hours_def ex_mem_req ex_mem_core ceil_quot_div bind_err_def)
     (simp add: ex_job_def)

text \<open>
  C2, evaluated. The host \<open>h7s3b15n01\<close> matches the first rule of the table (64G on 24
  cores) and the second (24G on 12 cores); with no node type in the category, the loop
  leaves \<^verbatim>\<open>mem_core\<close> at the value of the second rule, the last one that matches.
\<close>

theorem backup_last_match_overrides:
  "node_mem_core ex_sge (ex_job ''h7s3b15n01'' ''-l h_vmem=1G'') = None
   \<and> map (\<lambda>b. re_match (re b) ''h7s3b15n01'') backup_node_mpc
       = [True, True, False, False, False, False, False, False, False, False]
   \<and> mpc (backup_node_mpc ! 0) = 2863311530
   \<and> mpc (backup_node_mpc ! 1) = 2147483648
   \<and> job_mem_core ex_sge (ex_job ''h7s3b15n01'' ''-l h_vmem=1G'') = Some 2147483648"
  by (simp add: job_mem_core_def node_mem_core_def ex_defs backup_example)
     (simp add: backup_node_mpc_def re_match_def number_defs)

text \<open>
  C8. When the memory request is \<^verbatim>\<open>None\<close> (no \<^verbatim>\<open>h_vmem\<close> in the category, or one that
  \<^verbatim>\<open>sge.number\<close> does not read), or when the node type gives no memory per core and no
  rule of the table matches the hostname, \<^verbatim>\<open>core_hours\<close> prints one warning, which names
  the job and its category, and returns the raw time twice. The loop of \<^verbatim>\<open>main\<close> goes on:
  the job is counted under its owner and user with the raw time in both columns, and
  the records that follow are processed.
\<close>

theorem core_hours_warning:
  assumes "job_mem_req env r = ReqNone
           \<or> (node_mem_core env r = None
               \<and> (\<forall>b\<in>set backup_node_mpc. \<not> re_match (re b) (hostname r)))"
  shows "core_hours env r
           = Inr ([warning r], ru_wallclock r * slots r, ru_wallclock r * slots r)
         \<and> (\<exists>owners'.
               record_usage env r (owners, err) = Inr (owners', err @ [warning r])
               \<and> entry owners' (equip_owner r) (owner r)
                   = Some (add_entry (or_zero (entry owners (equip_owner r) (owner r)))
                            \<lparr>jobs = 1, time = ru_wallclock r * slots r,
                             time_adj = ru_wallclock r * slots r\<rparr>)
               \<and> collect env (r # rs) (owners, err) = collect env rs (owners', err @ [warning r]))"
proof -
  have "job_mem_req env r = ReqNone \<or> job_mem_core env r = None"
    using assms by (simp add: job_mem_core_None)
  then have ch: "core_hours env r
      = Inr ([warning r], ru_wallclock r * slots r, ru_wallclock r * slots r)"
    by (rule core_hours_warn)
  show ?thesis
    by (simp add: ch record_usage_def bind_err_def Let_def entry_update)
       (simp add: entry_def or_zero_def add_entry_def zero_totals_def split: option.splits)
qed

theorem core_hours_warning_witness:
  "job_mem_req ex_sge (ex_job ''node1'' ''-l h_rt=3600'') = ReqNone
   \<and> core_hours ex_sge (ex_job ''node1'' ''-l h_rt=3600'')
       = Inr ([warning (ex_job ''node1'' ''-l h_rt=3600'')], 14400, 14400)
   \<and> warning (ex_job ''node1'' ''-l h_rt=3600'')
       = ''Warning: could not extract mem or mem per node details for job1 (-l h_rt=3600)''
   \<and> (\<exists>owners'.
         record_usage ex_sge (ex_job ''node1'' ''-l h_rt=3600'') ([], [])
           = Inr (owners', [warning (ex_job ''node1'' ''-l h_rt=3600'')])
         \<and> entry owners' ''ENV'' ''alice'' = Some \<lparr>jobs = 1, time = 14400, time_adj = 14400\<rparr>)"
proof -
  have m: "job_mem_req ex_sge (ex_job ''node1'' ''-l h_rt=3600'') = ReqNone"
    by (rule ex_mem_req(3))
  have e: "add_entry (or_zero (entry [] ''ENV'' ''alice'')) \<lparr>jobs = 1, time = 14400, time_adj = 14400\<rparr>
      = \<lparr>jobs = 1, time = 14400, time_adj = 14400\<rparr>"
    by (simp add: entry_def or_zero_def add_entry_def zero_totals_def)
  have w: "warning (ex_job ''node1'' ''-l h_rt=3600'')
       = ''Warning: could not extract mem or mem per node details for job1 (-l h_rt=3600)''"
    by (simp add: warning_def ex_job_def)
  have j: "ru_wallclock (ex_job ''node1'' ''-l h_rt=3600'') * slots (ex_job ''node1'' ''-l h_rt=3600'') = 14400"
    "equip_owner (ex_job ''node1'' ''-l h_rt=3600'') = ''ENV''"
    "owner (ex_job ''node1'' ''-l h_rt=3600'') = ''alice''"
    by (simp_all add: ex_job_def)
  from core_hours_warning [of ex_sge "ex_job ''node1'' ''-l h_rt=3600''" "[]" "[]" "[]", OF disjI1 [OF m]]
  show ?thesis unfolding j e using m w by auto
qed

section \<open>Date strings and the calendar\<close>

lemma max_parse: "parse_date (Some max_date) = Some [4000, 1, 1]"
  by code_simp

lemma max_dt: "datetime_new [4000, 1, 1] = Inr \<lparr>year = 4000, month = 1, day = 1, hour = 0, minute = 0, second = 0\<rparr>"
  by code_simp

lemma max_epoch: "epoch \<lparr>year = 4000, month = 1, day = 1, hour = 0, minute = 0, second = 0\<rparr> = 64060588800"
  by code_simp

lemma max_next: "next_datetime [4000, 1, 1] = Inr (Some \<lparr>year = 4000, month = 1, day = 2, hour = 0, minute = 0, second = 0\<rparr>)"
  by code_simp

lemma max_next_epoch: "epoch \<lparr>year = 4000, month = 1, day = 2, hour = 0, minute = 0, second = 0\<rparr> = 64060675200"
  by code_simp

lemma not_digit_nl: "\<not> is_digit (CHR 0x0A)" "\<not> is_digit CHR ''-''"
  by (simp_all add: is_digit_def)

lemma strip_newline_digits:
  assumes "list_all is_digit D"
  shows "strip_newline D = D"
proof (cases "D = []")
  case True then show ?thesis by (simp add: strip_newline_def)
next
  case False
  then have "is_digit (last D)" using assms by (simp add: list_all_iff)
  then have "last D \<noteq> CHR 0x0A" using not_digit_nl by auto
  then show ?thesis by (simp add: strip_newline_def)
qed

lemma match_single:
  assumes "list_all is_digit D" and "D \<noteq> []"
  shows "time_startend_match D = Some (Some D, None, None)"
proof -
  have t: "takeWhile is_digit D = D" using assms(1) by (simp add: list_all_iff)
  have d: "dropWhile is_digit D = []" using assms(1) by (simp add: list_all_iff)
  show ?thesis
    using assms(2) by (simp add: time_startend_match_def strip_newline_digits [OF assms(1)] t d nonempty_def)
qed

lemma match_open:
  assumes "list_all is_digit A"
  shows "time_startend_match (A @ ''-'') = Some (nonempty A, Some ''-'', None)"
proof -
  have s: "strip_newline (A @ ''-'') = A @ ''-''" by (simp add: strip_newline_def)
  have t: "takeWhile is_digit (A @ ''-'') = A"
    using assms not_digit_nl by (simp add: list_all_iff takeWhile_append2)
  have d: "dropWhile is_digit (A @ ''-'') = ''-''"
    using assms not_digit_nl by (simp add: list_all_iff dropWhile_append2)
  show ?thesis
    by (simp add: time_startend_match_def s t d nonempty_def)
qed

lemma match_no_hyphen:
  assumes "time_startend_match s = Some (g1, g2, g3)" and "CHR ''-'' \<notin> set s"
  shows "g2 = None \<and> g3 = None"
proof -
  have "set (strip_newline s) \<subseteq> set s"
    by (auto simp: strip_newline_def dest: in_set_butlastD)
  moreover have "set (dropWhile is_digit (strip_newline s)) \<subseteq> set (strip_newline s)"
    by (auto dest: set_dropWhileD)
  ultimately have sub: "set (dropWhile is_digit (strip_newline s)) \<subseteq> set s"
    by blast
  show ?thesis
  proof (cases "dropWhile is_digit (strip_newline s)")
    case Nil
    show ?thesis using assms(1) unfolding time_startend_match_def Let_def Nil by simp
  next
    case (Cons c b)
    then have "c \<in> set s" using sub by auto
    then have "c \<noteq> CHR ''-''" using assms(2) by auto
    then show ?thesis using assms(1) unfolding time_startend_match_def Let_def Cons by simp
  qed
qed

lemma pairs2: "pairs [c, d] = Some [[c, d]]"
  by simp

lemma parse_date_year:
  assumes "list_all is_digit D" and "length D = 4"
  shows "parse_date (Some D) = Some [int_of_digits D]"
proof -
  have "D \<noteq> []" using assms(2) by auto
  then show ?thesis
    using assms by (simp add: parse_date_def datetime_match_def strip_newline_digits)
qed

lemma parse_date_month:
  assumes "list_all is_digit D" and "length D = 6"
  shows "parse_date (Some D) = Some [int_of_digits (take 4 D), int_of_digits (drop 4 D)]"
proof -
  have ne: "D \<noteq> []" using assms(2) by auto
  define r where "r = drop 4 D"
  have "length r = 2" using assms(2) by (simp add: r_def)
  then obtain c d where "r = [c, d]"
    by (auto simp: numeral_2_eq_2 length_Suc_conv)
  then have cd: "drop 4 D = [c, d]" by (simp add: r_def)
  show ?thesis
    using assms ne by (simp add: parse_date_def datetime_match_def strip_newline_digits cd)
qed

lemma div_step: 
  assumes k: "0 < (k::int)"
  shows "y div k = (y - 1) div k + (if y mod k = 0 then 1 else 0)"
proof (cases "y mod k = 0")
  case True
  have y: "y = k * (y div k)" using True mult_div_mod_eq [of k y] by simp
  have "y - 1 = k * (y div k - 1) + (k - 1)"
    using y by (simp add: algebra_simps)
  moreover have "0 \<le> k - 1" "k - 1 < k" using k by simp_all
  ultimately have "(y - 1) div k = y div k - 1"
    by (rule int_div_pos_eq)
  then show ?thesis using True by simp
next
  case False
  have "y - 1 = k * (y div k) + (y mod k - 1)" by (simp add: algebra_simps)
  moreover have "0 \<le> y mod k - 1" using False pos_mod_sign [OF k, of y] by linarith
  moreover have "y mod k - 1 < k" using pos_mod_bound [OF k, of y] by linarith
  ultimately have "(y - 1) div k = y div k" by (rule int_div_pos_eq)
  then show ?thesis using False by simp
qed


lemma days_before_year_Suc:
  "days_before_year (y + 1) = days_before_year y + (if is_leap y then 366 else 365)"
proof -
  define m4 where "m4 = (y mod 4 = 0)"
  define m100 where "m100 = (y mod 100 = 0)"
  define m400 where "m400 = (y mod 400 = 0)"
  have a: "m100" if "m400"
  proof -
    have "y mod 400 mod 100 = y mod 100" by (rule mod_mod_cancel) simp
    then show ?thesis using that by (simp add: m100_def m400_def)
  qed
  have b: "m4" if "m100"
  proof -
    have "y mod 100 mod 4 = y mod 4" by (rule mod_mod_cancel) simp
    then show ?thesis using that by (simp add: m4_def m100_def)
  qed
  have s4: "y div 4 = (y - 1) div 4 + (if m4 then 1 else 0)"
    unfolding m4_def by (rule div_step) simp
  have s100: "y div 100 = (y - 1) div 100 + (if m100 then 1 else 0)"
    unfolding m100_def by (rule div_step) simp
  have s400: "y div 400 = (y - 1) div 400 + (if m400 then 1 else 0)"
    unfolding m400_def by (rule div_step) simp
  have leap: "is_leap y = (m4 \<and> (\<not> m100 \<or> m400))"
    by (simp only: is_leap_def m4_def m100_def m400_def)
  have key: "y * 365 + (p + i4) - (q + i100) + (r + i400) = (y - 1) * 365 + p - q + r + n"
    if "n = 365 + i4 - i100 + i400" for p q r i4 i100 i400 n :: int
    using that by (simp add: algebra_simps)
  have n: "(if is_leap y then 366 else 365)
      = 365 + (if m4 then 1 else 0) - (if m100 then 1 else 0) + (if m400 then (1::int) else 0)"
    unfolding leap using a b by (cases m4; cases m100; cases m400) simp_all
  have "days_before_year (y + 1) = y * 365 + y div 4 - y div 100 + y div 400"
    by (simp only: days_before_year_def add_diff_cancel_right')
  also have "\<dots> = y * 365 + ((y - 1) div 4 + (if m4 then 1 else 0))
      - ((y - 1) div 100 + (if m100 then 1 else 0))
      + ((y - 1) div 400 + (if m400 then 1 else 0))"
    using s4 s100 s400 by (simp only:)
  also have "\<dots> = (y - 1) * 365 + (y - 1) div 4 - (y - 1) div 100 + (y - 1) div 400
      + (if is_leap y then 366 else 365)"
    by (rule key) (rule n)
  finally show ?thesis by (simp only: days_before_year_def)
qed

lemma days_before_month_Suc:
  "1 \<le> m \<Longrightarrow> days_before_month y (m + 1) = days_before_month y m + days_in_month y m"
  by (simp add: days_before_month_def upto_rec2 [of 1 m])

lemma days_before_month_1: "days_before_month y 1 = 0"
  by (simp add: days_before_month_def)

lemma upto_1_12: "[1..12::int] = [1, 2, 3, 4, 5, 6, 7, 8, 9, 10, 11, 12]"
  by code_simp

lemma days_before_month_13:
  "days_before_month y 13 = (if is_leap y then 366 else 365)"
  by (simp add: days_before_month_def upto_1_12 days_in_month_def)

lemma year_rollover: "ymd2ord (y + 1) 1 1 = ymd2ord y 12 31 + 1"
proof -
  have "days_before_month y 13 = days_before_month y 12 + 31"
    using days_before_month_Suc [of 12 y] by (simp add: days_in_month_def)
  then show ?thesis
    by (simp add: ymd2ord_def days_before_year_Suc days_before_month_1 days_before_month_13)
qed

lemma days_in_month_bounds: "28 \<le> days_in_month y m" "days_in_month y m \<le> 31"
  by (simp_all add: days_in_month_def)

lemma datetime_new_range:
  assumes "datetime_new args = Inr t"
  shows "1 \<le> year t \<and> year t \<le> 9999 \<and> 1 \<le> month t \<and> month t \<le> 12
         \<and> 1 \<le> day t \<and> day t \<le> days_in_month (year t) (month t)
         \<and> 0 \<le> hour t \<and> hour t \<le> 23 \<and> 0 \<le> minute t \<and> minute t \<le> 59
         \<and> 0 \<le> second t \<and> second t \<le> 59"
  using assms
  by (auto simp: datetime_new_def in_range_def split: list.splits if_splits)

lemma add_days1_epoch:
  assumes "add_days1 t = Inr t'" and "1 \<le> month t" and "month t \<le> 12"
    and "day t \<le> days_in_month (year t) (month t)"
  shows "epoch t' = epoch t + 86400"
proof -
  consider (a) "day t < days_in_month (year t) (month t)"
    | (b) "day t = days_in_month (year t) (month t)" "month t < 12"
    | (c) "day t = days_in_month (year t) (month t)" "month t = 12"
    using assms(3,4) by linarith
  then show ?thesis
  proof cases
    case a
    then have "t' = t\<lparr>day := day t + 1\<rparr>" using assms(1) by (simp add: add_days1_def)
    then show ?thesis by (simp add: epoch_def ymd2ord_def)
  next
    case b
    then have "t' = t\<lparr>month := month t + 1, day := 1\<rparr>"
      using assms(1) by (simp add: add_days1_def)
    then show ?thesis
      using b days_before_month_Suc [OF assms(2), of "year t"]
      by (simp add: epoch_def ymd2ord_def)
  next
    case c
    then have d: "day t = 31" by (simp add: days_in_month_def)
    have "year t < 9999" using assms(1) c by (simp add: add_days1_def split: if_splits)
    then have "t' = t\<lparr>year := year t + 1, month := 1, day := 1\<rparr>"
      using assms(1) c by (simp add: add_days1_def)
    then show ?thesis
      using year_rollover [of "year t"] c d by (simp add: epoch_def)
  qed
qed

lemma add_hours1_epoch:
  assumes "add_hours1 t = Inr t'" and "1 \<le> month t" and "month t \<le> 12"
    and "day t \<le> days_in_month (year t) (month t)" and "hour t \<le> 23"
  shows "epoch t' = epoch t + 3600"
proof (cases "hour t < 23")
  case True
  then have "t' = t\<lparr>hour := hour t + 1\<rparr>" using assms(1) by (simp add: add_hours1_def)
  then show ?thesis by (simp add: epoch_def)
next
  case False
  then have h: "hour t = 23" using assms(5) by simp
  have "add_days1 (t\<lparr>hour := 0\<rparr>) = Inr t'" using assms(1) False by (simp add: add_hours1_def)
  then have "epoch t' = epoch (t\<lparr>hour := 0\<rparr>) + 86400"
    by (rule add_days1_epoch) (use assms in simp_all)
  then show ?thesis using h by (simp add: epoch_def)
qed

lemma add_minutes1_epoch:
  assumes "add_minutes1 t = Inr t'" and "1 \<le> month t" and "month t \<le> 12"
    and "day t \<le> days_in_month (year t) (month t)" and "hour t \<le> 23" and "minute t \<le> 59"
  shows "epoch t' = epoch t + 60"
proof (cases "minute t < 59")
  case True
  then have "t' = t\<lparr>minute := minute t + 1\<rparr>" using assms(1) by (simp add: add_minutes1_def)
  then show ?thesis by (simp add: epoch_def)
next
  case False
  then have h: "minute t = 59" using assms(6) by simp
  have "add_hours1 (t\<lparr>minute := 0\<rparr>) = Inr t'"
    using assms(1) False by (simp add: add_minutes1_def)
  then have "epoch t' = epoch (t\<lparr>minute := 0\<rparr>) + 3600"
    by (rule add_hours1_epoch) (use assms in simp_all)
  then show ?thesis using h by (simp add: epoch_def)
qed

lemma add_seconds1_epoch:
  assumes "add_seconds1 t = Inr t'" and "1 \<le> month t" and "month t \<le> 12"
    and "day t \<le> days_in_month (year t) (month t)" and "hour t \<le> 23" and "minute t \<le> 59"
    and "second t \<le> 59"
  shows "epoch t' = epoch t + 1"
proof (cases "second t < 59")
  case True
  then have "t' = t\<lparr>second := second t + 1\<rparr>" using assms(1) by (simp add: add_seconds1_def)
  then show ?thesis by (simp add: epoch_def)
next
  case False
  then have h: "second t = 59" using assms(7) by simp
  have "add_minutes1 (t\<lparr>second := 0\<rparr>) = Inr t'"
    using assms(1) False by (simp add: add_seconds1_def)
  then have "epoch t' = epoch (t\<lparr>second := 0\<rparr>) + 60"
    by (rule add_minutes1_epoch) (use assms in simp_all)
  then show ?thesis using h by (simp add: epoch_def)
qed

lemma add_months1_epoch:
  assumes "add_months1 t = Inr t'" and "1 \<le> month t" and "month t \<le> 12" and "day t = 1"
  shows "epoch t' = epoch t + 86400 * days_in_month (year t) (month t)"
proof (cases "month t < 12")
  case True
  have "min (days_in_month (year t) (month t + 1)) 1 = 1"
    using days_in_month_bounds(1) [of "year t" "month t + 1"] by simp
  then have "t' = t\<lparr>year := year t, month := month t + 1, day := 1\<rparr>"
    using assms(1,4) True by (simp add: add_months1_def Let_def split: if_splits)
  then show ?thesis
    using assms(4) days_before_month_Suc [OF assms(2), of "year t"]
    by (simp add: epoch_def ymd2ord_def algebra_simps)
next
  case False
  then have m: "month t = 12" using assms(3) by simp
  have "min (days_in_month (year t + 1) 1) 1 = 1"
    by (simp add: days_in_month_def)
  then have "t' = t\<lparr>year := year t + 1, month := 1, day := 1\<rparr>"
    using assms(1,4) m by (simp add: add_months1_def Let_def split: if_splits)
  then show ?thesis
    using year_rollover [of "year t"] m assms(4) days_before_month_Suc [of 11 "year t"]
    by (simp add: epoch_def ymd2ord_def days_in_month_def algebra_simps)
qed

lemma add_years1_epoch:
  assumes "add_years1 t = Inr t'" and "month t = 1" and "day t = 1"
  shows "epoch t' = epoch t + 86400 * (if is_leap (year t) then 366 else 365)"
proof -
  have "min (days_in_month (year t + 1) 1) 1 = 1"
    by (simp add: days_in_month_def)
  then have "t' = t\<lparr>year := year t + 1, day := 1\<rparr>"
    using assms by (simp add: add_years1_def Let_def split: if_splits)
  then show ?thesis
    using assms(2,3)
    by (simp add: epoch_def ymd2ord_def days_before_year_Suc days_before_month_1)
qed


lemma next_datetime_Inr:
  assumes "next_datetime cs = Inr v"
  obtains t1 c1 c2 c3 c4 c5 c6 where
    "datetime_new (datetime_defaults cs) = Inr t1"
    "add_years1 t1 = Inr c1" "add_months1 t1 = Inr c2" "add_days1 t1 = Inr c3"
    "add_hours1 t1 = Inr c4" "add_minutes1 t1 = Inr c5" "add_seconds1 t1 = Inr c6"
    "v = case_get [c1, c2, c3, c4, c5, c6] (length cs)"
  using assms by (auto simp: next_datetime_def bind_err_def split: sum.splits)

lemma next_datetime_error:
  "datetime_new (datetime_defaults cs) = Inl e \<Longrightarrow> next_datetime cs = Inl e"
  by (simp add: next_datetime_def bind_err_def)

lemma add_ok:
  assumes "year t \<le> 9998"
  shows "\<exists>c. add_years1 t = Inr c" "\<exists>c. add_months1 t = Inr c" "\<exists>c. add_days1 t = Inr c"
    "\<exists>c. add_hours1 t = Inr c" "\<exists>c. add_minutes1 t = Inr c" "\<exists>c. add_seconds1 t = Inr c"
  using assms
  by (simp_all add: add_years1_def add_months1_def add_days1_def add_hours1_def
      add_minutes1_def add_seconds1_def Let_def)

lemma next_datetime_year:
  assumes "1 \<le> y" and "y \<le> 9998"
  shows "next_datetime [y]
    = Inr (Some \<lparr>year = y + 1, month = 1, day = 1, hour = 0, minute = 0, second = 0\<rparr>)"
proof -
  let ?t = "\<lparr>year = y, month = 1, day = 1, hour = 0, minute = 0, second = 0\<rparr>"
  have n: "datetime_new (datetime_defaults [y]) = Inr ?t"
    using assms by (simp add: datetime_defaults_def datetime_new_def in_range_def arg_def days_in_month_def)
  have y1: "add_years1 ?t = Inr \<lparr>year = y + 1, month = 1, day = 1, hour = 0, minute = 0, second = 0\<rparr>"
    using assms by (simp add: add_years1_def Let_def days_in_month_def)
  obtain c2 c3 c4 c5 c6 where "add_months1 ?t = Inr c2" "add_days1 ?t = Inr c3"
    "add_hours1 ?t = Inr c4" "add_minutes1 ?t = Inr c5" "add_seconds1 ?t = Inr c6"
    using add_ok [of ?t] assms by auto
  then show ?thesis
    by (simp add: next_datetime_def bind_err_def n y1 case_get_def)
qed

lemma next_datetime_month:
  assumes "1 \<le> y" and "y \<le> 9998" and "1 \<le> m" and "m \<le> 12"
  shows "next_datetime [y, m]
    = Inr (Some (if m = 12
                 then \<lparr>year = y + 1, month = 1, day = 1, hour = 0, minute = 0, second = 0\<rparr>
                 else \<lparr>year = y, month = m + 1, day = 1, hour = 0, minute = 0, second = 0\<rparr>))"
proof -
  let ?t = "\<lparr>year = y, month = m, day = 1, hour = 0, minute = 0, second = 0\<rparr>"
  have d: "1 \<le> days_in_month y m" using days_in_month_bounds(1) [of y m] by simp
  have n: "datetime_new (datetime_defaults [y, m]) = Inr ?t"
    using assms d by (simp add: datetime_defaults_def datetime_new_def in_range_def arg_def)
  have d': "min (days_in_month y' m') 1 = 1" for y' m'
    using days_in_month_bounds(1) [of y' m'] by simp
  have m1: "add_months1 ?t = Inr (if m = 12
                 then \<lparr>year = y + 1, month = 1, day = 1, hour = 0, minute = 0, second = 0\<rparr>
                 else \<lparr>year = y, month = m + 1, day = 1, hour = 0, minute = 0, second = 0\<rparr>)"
    using assms by (simp add: add_months1_def Let_def d')
  obtain c1 c3 c4 c5 c6 where "add_years1 ?t = Inr c1" "add_days1 ?t = Inr c3"
    "add_hours1 ?t = Inr c4" "add_minutes1 ?t = Inr c5" "add_seconds1 ?t = Inr c6"
    using add_ok [of ?t] assms by auto
  then show ?thesis
    by (simp add: next_datetime_def bind_err_def n m1 case_get_def)
qed

lemma datetime_defaults_cases:
  "datetime_defaults [] = [1970, 1, 1]"
  "datetime_defaults [a] = [a, 1, 1]"
  "datetime_defaults [a, b] = [a, b, 1]"
  "datetime_defaults (a # b # c # r) = a # b # c # r"
  by (simp_all add: datetime_defaults_def)

lemma next_after:
  assumes n: "datetime_new (datetime_defaults cs) = Inr t1"
    and x: "next_datetime cs = Inr (Some t2)"
  shows "epoch t1 < epoch t2"
proof -
  from x obtain t1' c1 c2 c3 c4 c5 c6 where
    t: "datetime_new (datetime_defaults cs) = Inr t1'"
    and c: "add_years1 t1' = Inr c1" "add_months1 t1' = Inr c2" "add_days1 t1' = Inr c3"
      "add_hours1 t1' = Inr c4" "add_minutes1 t1' = Inr c5" "add_seconds1 t1' = Inr c6"
    and g: "Some t2 = case_get [c1, c2, c3, c4, c5, c6] (length cs)"
    by (rule next_datetime_Inr)
  have t1': "t1' = t1" using n t by simp
  note r = datetime_new_range [OF n]
  have dpos: "0 < days_in_month (year t1) (month t1)"
    using days_in_month_bounds(1) [of "year t1" "month t1"] by simp
  have len: "1 \<le> length cs" "length cs \<le> 6"
    using g by (auto simp: case_get_def split: if_splits)
  then consider "length cs = 1" | "length cs = 2" | "length cs = 3" | "length cs = 4"
    | "length cs = 5" | "length cs = 6"
    by linarith
  then show ?thesis
  proof cases
    case 1
    then obtain a where cs: "cs = [a]" by (auto simp: length_Suc_conv)
    have f: "month t1 = 1" "day t1 = 1"
      using n by (auto simp: cs datetime_defaults_cases datetime_new_def split: if_splits)
    have "t2 = c1" using g 1 by (simp add: case_get_def)
    then have "epoch t2 = epoch t1 + 86400 * (if is_leap (year t1) then 366 else 365)"
      using add_years1_epoch [OF c(1) [unfolded t1'] f] by simp
    then show ?thesis by simp
  next
    case 2
    then obtain a b where cs: "cs = [a, b]"
      by (auto simp: length_Suc_conv numeral_2_eq_2)
    have f: "day t1 = 1"
      using n by (auto simp: cs datetime_defaults_cases datetime_new_def split: if_splits)
    have "t2 = c2" using g 2 by (simp add: case_get_def)
    then have "epoch t2 = epoch t1 + 86400 * days_in_month (year t1) (month t1)"
      using add_months1_epoch [OF c(2) [unfolded t1'] _ _ f] r by simp
    then show ?thesis using dpos by simp
  next
    case 3
    have "t2 = c3" using g 3 by (simp add: case_get_def)
    then have "epoch t2 = epoch t1 + 86400"
      using add_days1_epoch [OF c(3) [unfolded t1']] r by simp
    then show ?thesis by simp
  next
    case 4
    have "t2 = c4" using g 4 by (simp add: case_get_def)
    then have "epoch t2 = epoch t1 + 3600"
      using add_hours1_epoch [OF c(4) [unfolded t1']] r by simp
    then show ?thesis by simp
  next
    case 5
    have "t2 = c5" using g 5 by (simp add: case_get_def)
    then have "epoch t2 = epoch t1 + 60"
      using add_minutes1_epoch [OF c(5) [unfolded t1']] r by simp
    then show ?thesis by simp
  next
    case 6
    have "t2 = c6" using g 6 by (simp add: case_get_def)
    then have "epoch t2 = epoch t1 + 1"
      using add_seconds1_epoch [OF c(6) [unfolded t1']] r by simp
    then show ?thesis by simp
  qed
qed


section \<open>Properties of parse_startend\<close>

lemma bind_err_simps:
  "bind_err (Inr x) f = f x" "bind_err (Inl e) f = Inl e"
  by (simp_all add: bind_err_def)

lemma unpack_simps: "unpack (Some x) = Inr x" "unpack None = Inl TypeError"
  by (simp_all add: unpack_def)

text \<open>The body of parse_startend for a non-empty string.\<close>

lemma parse_startend_Some:
  assumes "s \<noteq> []"
  shows "parse_startend (Some s) =
     (case time_startend_match s of
        None \<Rightarrow> Inr (0, 64060588800)
      | Some (g1, g2, g3) \<Rightarrow>
          bind_err
            (case g1 of
               None \<Rightarrow> Inr 0
             | Some a \<Rightarrow>
                 bind_err (unpack (parse_date (Some a))) (\<lambda>cs.
                 bind_err (datetime_new (datetime_defaults cs)) (\<lambda>start_dt.
                   Inr (epoch start_dt))))
            (\<lambda>start.
               bind_err (unpack (parse_date (end_date g1 g2 g3))) (\<lambda>cs.
               bind_err (next_datetime cs) (\<lambda>end_dt.
                 case end_dt of
                   None \<Rightarrow> Inl AttributeError
                 | Some t \<Rightarrow> Inr (start, epoch t)))))"
  using assms
  by (simp add: parse_startend_def max_parse max_dt max_epoch unpack_simps bind_err_simps
      split: option.splits)

lemma parse_startend_default:
  "parse_startend None = Inr (0, 64060588800)" "parse_startend (Some []) = Inr (0, 64060588800)"
  by (simp_all add: parse_startend_def max_parse max_dt max_epoch unpack_def bind_err_def Let_def)

lemma pairs_length: "pairs s = Some ps \<Longrightarrow> length s = 2 * length ps"
  by (induction s arbitrary: ps rule: pairs.induct) auto

lemma parse_date_length:
  assumes "parse_date v = Some cs"
  shows "1 \<le> length cs \<and> length cs \<le> 6"
proof -
  from assms obtain d where d: "v = Some d" "d \<noteq> []"
    and m: "map_option (map int_of_digits) (datetime_match d) = Some cs"
    by (auto simp: parse_date_def split: option.splits if_splits)
  from m obtain gs where gs: "datetime_match d = Some gs" "cs = map int_of_digits gs"
    by auto
  let ?b = "strip_newline d"
  from gs(1) obtain ps where ps: "pairs (drop 4 ?b) = Some ps" "gs = take 4 ?b # ps"
    and l: "length ?b \<le> 14"
    by (auto simp: datetime_match_def Let_def split: if_splits)
  have "length (drop 4 ?b) = 2 * length ps" using ps(1) by (rule pairs_length)
  then have "length ps \<le> 5" using l by simp
  then show ?thesis using gs(2) ps(2) by simp
qed

lemma datetime_new_defaults:
  assumes "1 \<le> length cs \<and> length cs \<le> 6"
    and "datetime_defaults cs = y # m # d # rest"
  shows "datetime_new (datetime_defaults cs)
     = (if in_range y m d rest
        then Inr \<lparr>year = y, month = m, day = d,
                  hour = arg rest 0, minute = arg rest 1, second = arg rest 2\<rparr>
        else Inl ValueError)"
proof -
  have "length (datetime_defaults cs) \<le> 6"
    using assms(1) by (auto simp: datetime_defaults_def Let_def)
  then have "length rest \<le> 3" using assms(2) by simp
  then show ?thesis by (simp add: assms(2) datetime_new_def)
qed

lemma start_of_error:
  assumes "parse_date (Some a) = Some cs"
  shows "(\<exists>t. datetime_new (datetime_defaults cs) = Inr t)
         \<or> datetime_new (datetime_defaults cs) = Inl ValueError"
proof -
  have l: "1 \<le> length cs \<and> length cs \<le> 6" using assms by (rule parse_date_length)
  then have "3 \<le> length (datetime_defaults cs)"
    by (auto simp: datetime_defaults_def Let_def)
  then obtain y m d rest where "datetime_defaults cs = y # m # d # rest"
    by (metis Suc_le_length_iff numeral_3_eq_3)
  from datetime_new_defaults [OF l this] show ?thesis by auto
qed

text \<open>
  C3, as the code has it. A non-empty string that does not match the date-range
  pattern is not reported: \<^verbatim>\<open>parse_startend\<close> returns the range it starts from, 0 to the
  epoch second of \<^verbatim>\<open>max_date\<close>. When the string matches and one of its date strings
  (group 1 or group 3) does not match the date pattern, \<^verbatim>\<open>parse_date\<close> returns \<^verbatim>\<open>None\<close>
  and unpacking it raises \<^verbatim>\<open>TypeError\<close>; the call raises that, or the \<^verbatim>\<open>ValueError\<close> of
  a start date out of its calendar range, and returns no range.
\<close>

theorem parse_startend_malformed:
  "(s \<noteq> [] \<and> time_startend_match s = None \<longrightarrow> parse_startend (Some s) = Inr (0, 64060588800))
   \<and> (time_startend_match s = Some (g1, g2, g3)
        \<and> (\<exists>a. (g1 = Some a \<or> g3 = Some a) \<and> parse_date (Some a) = None)
      \<longrightarrow> parse_startend (Some s) = Inl TypeError \<or> parse_startend (Some s) = Inl ValueError)"
proof (intro conjI impI)
  assume "s \<noteq> [] \<and> time_startend_match s = None"
  then show "parse_startend (Some s) = Inr (0, 64060588800)"
    by (simp add: parse_startend_Some)
next
  assume h: "time_startend_match s = Some (g1, g2, g3)
        \<and> (\<exists>a. (g1 = Some a \<or> g3 = Some a) \<and> parse_date (Some a) = None)"
  then obtain a where a: "g1 = Some a \<or> g3 = Some a" "parse_date (Some a) = None" by blast
  have ne: "s \<noteq> []"
    using h a(1) by (auto simp: time_startend_match_def strip_newline_def nonempty_def)
  have ps: "parse_startend (Some s) =
      bind_err
        (case g1 of
           None \<Rightarrow> Inr 0
         | Some a \<Rightarrow>
             bind_err (unpack (parse_date (Some a))) (\<lambda>cs.
             bind_err (datetime_new (datetime_defaults cs)) (\<lambda>start_dt.
               Inr (epoch start_dt))))
        (\<lambda>start.
           bind_err (unpack (parse_date (end_date g1 g2 g3))) (\<lambda>cs.
           bind_err (next_datetime cs) (\<lambda>end_dt.
             case end_dt of
               None \<Rightarrow> Inl AttributeError
             | Some t \<Rightarrow> Inr (start, epoch t))))"
    using h by (simp add: parse_startend_Some [OF ne])
  show "parse_startend (Some s) = Inl TypeError \<or> parse_startend (Some s) = Inl ValueError"
  proof (cases g1)
    case None
    then have "g3 = Some a" using a(1) by simp
    then show ?thesis
      by (simp add: ps None end_date_def a(2) unpack_simps bind_err_simps)
  next
    case (Some a1)
    show ?thesis
    proof (cases "parse_date (Some a1)")
      case None
      then show ?thesis by (simp add: ps Some unpack_simps bind_err_simps)
    next
      case (Some cs)
      then have g3: "g3 = Some a" using a \<open>g1 = Some a1\<close> by auto
      from start_of_error [OF Some] show ?thesis
      proof
        assume "\<exists>t. datetime_new (datetime_defaults cs) = Inr t"
        then show ?thesis
          by (auto simp: ps \<open>g1 = Some a1\<close> Some g3 end_date_def a(2) unpack_simps bind_err_simps)
      next
        assume "datetime_new (datetime_defaults cs) = Inl ValueError"
        then show ?thesis
          by (simp add: ps \<open>g1 = Some a1\<close> Some unpack_simps bind_err_simps)
      qed
    qed
  qed
qed

text \<open>
  The two cases at \<open>2018/2019\<close> (no match of the range pattern) and \<open>20181\<close> (five
  digits are not a date).
\<close>

theorem parse_startend_malformed_witness:
  "time_startend_match ''2018/2019'' = None
   \<and> parse_startend (Some ''2018/2019'') = Inr (0, 64060588800)
   \<and> time_startend_match ''20181'' = Some (Some ''20181'', None, None)
   \<and> parse_date (Some ''20181'') = None
   \<and> parse_startend (Some ''20181'') = Inl TypeError"
proof -
  have m1: "time_startend_match ''2018/2019'' = None" by code_simp
  have m2: "time_startend_match ''20181'' = Some (Some ''20181'', None, None)" by code_simp
  have p2: "parse_date (Some ''20181'') = None" by code_simp
  have n2: "parse_startend (Some ''20181'') \<noteq> Inl ValueError" by code_simp
  from parse_startend_malformed [of "''2018/2019''" None None None] m1
  have r1: "parse_startend (Some ''2018/2019'') = Inr (0, 64060588800)" by simp
  from parse_startend_malformed [of "''20181''" "Some ''20181''" None None] m2 p2 n2
  have r2: "parse_startend (Some ''20181'') = Inl TypeError" by simp
  show ?thesis using m1 m2 p2 r1 r2 by simp
qed

text \<open>
  C3 as stated fails: \<open>abc\<close> does not match the date-range pattern, and the call
  returns the default range instead of raising.
\<close>

theorem parse_startend_unmatched_defaults:
  "time_startend_match ''abc'' = None \<and> parse_startend (Some ''abc'') = Inr (0, 64060588800)"
  by code_simp

text \<open>
  C7, as the code has it. For a date string \<open>A\<close> of digits that is a valid date, the
  spec \<open>A-\<close> yields the epoch second of \<open>A\<close> and the next unit after \<^verbatim>\<open>max_date\<close>: the
  end is 4000-01-02 00:00:00, one day after the epoch second of \<^verbatim>\<open>max_date\<close> that ends
  the range of an absent spec.
\<close>

theorem parse_startend_open_end:
  assumes "list_all is_digit A" and "parse_date (Some A) = Some cs"
    and "datetime_new (datetime_defaults cs) = Inr t"
  shows "parse_startend (Some (A @ ''-'')) = Inr (epoch t, 64060675200)
         \<and> parse_startend None = Inr (0, 64060588800)
         \<and> epoch \<lparr>year = 4000, month = 1, day = 1, hour = 0, minute = 0, second = 0\<rparr> + 86400
             = 64060675200"
proof -
  have ne: "A \<noteq> []" using assms(2) by (auto simp: parse_date_def)
  have m: "time_startend_match (A @ ''-'') = Some (Some A, Some ''-'', None)"
    using match_open [OF assms(1)] ne by (simp add: nonempty_def)
  have e: "end_date (Some A) (Some ''-'') None = Some max_date"
    by (simp add: end_date_def)
  have "parse_startend (Some (A @ ''-'')) = Inr (epoch t, 64060675200)"
    by (simp add: parse_startend_Some m e assms(2,3) max_parse max_next max_next_epoch
        unpack_simps bind_err_simps)
  then show ?thesis
    by (simp add: parse_startend_default max_epoch)
qed

text \<open>
  The spec \<open>201906-\<close>.
\<close>

theorem parse_startend_open_end_witness:
  "list_all is_digit ''201906''
   \<and> parse_date (Some ''201906'') = Some [2019, 6]
   \<and> parse_startend (Some ''201906-'') = Inr (1559347200, 64060675200)"
proof -
  have d: "list_all is_digit ''201906''" by code_simp
  have p: "parse_date (Some ''201906'') = Some [2019, 6]" by code_simp
  have n: "datetime_new (datetime_defaults [2019, 6])
      = Inr \<lparr>year = 2019, month = 6, day = 1, hour = 0, minute = 0, second = 0\<rparr>"
    by code_simp
  have e: "epoch \<lparr>year = 2019, month = 6, day = 1, hour = 0, minute = 0, second = 0\<rparr> = 1559347200"
    by code_simp
  from parse_startend_open_end [OF d p n] show ?thesis using d p e by simp
qed

text \<open>
  C7 as stated fails: the end of \<open>2018-\<close> is 64060675200, the end of an absent spec
  and the epoch second of \<^verbatim>\<open>max_date\<close> are 64060588800.
\<close>

theorem parse_startend_open_end_differs:
  "parse_startend (Some ''2018-'') = Inr (1514764800, 64060675200)
   \<and> parse_startend None = Inr (0, 64060588800)
   \<and> epoch \<lparr>year = 4000, month = 1, day = 1, hour = 0, minute = 0, second = 0\<rparr> = 64060588800"
  by code_simp

text \<open>
  C10. The spec matches the date-range pattern, each date string in it matches the
  date pattern, and one of them has a component outside its calendar range (after the
  defaults for a missing month and day): \<^verbatim>\<open>parse_startend\<close> raises the \<^verbatim>\<open>ValueError\<close>
  of the \<^verbatim>\<open>datetime\<close> constructor. No component is clamped and no range is returned.
\<close>

theorem parse_startend_out_of_range:
  assumes "time_startend_match s = Some (g1, g2, g3)"
    and "\<forall>b. g1 = Some b \<or> g3 = Some b \<longrightarrow> parse_date (Some b) \<noteq> None"
    and "g1 = Some a \<or> g3 = Some a"
    and "parse_date (Some a) = Some cs"
    and "datetime_defaults cs = y # m # d # rest"
    and "\<not> in_range y m d rest"
  shows "parse_startend (Some s) = Inl ValueError"
proof -
  have ne: "s \<noteq> []"
    using assms(1,3) by (auto simp: time_startend_match_def strip_newline_def nonempty_def)
  have bad: "datetime_new (datetime_defaults cs) = Inl ValueError"
    using datetime_new_defaults [OF parse_date_length [OF assms(4)] assms(5)] assms(6) by simp
  have ps: "parse_startend (Some s) =
      bind_err
        (case g1 of
           None \<Rightarrow> Inr 0
         | Some a \<Rightarrow>
             bind_err (unpack (parse_date (Some a))) (\<lambda>cs.
             bind_err (datetime_new (datetime_defaults cs)) (\<lambda>start_dt.
               Inr (epoch start_dt))))
        (\<lambda>start.
           bind_err (unpack (parse_date (end_date g1 g2 g3))) (\<lambda>cs.
           bind_err (next_datetime cs) (\<lambda>end_dt.
             case end_dt of
               None \<Rightarrow> Inl AttributeError
             | Some t \<Rightarrow> Inr (start, epoch t))))"
    using assms(1) by (simp add: parse_startend_Some [OF ne])
  have tail: "bind_err (unpack (parse_date (end_date g g2 (Some a)))) (\<lambda>cs.
           bind_err (next_datetime cs) (\<lambda>end_dt.
             case end_dt of
               None \<Rightarrow> Inl AttributeError
             | Some t \<Rightarrow> Inr (start, epoch t))) = Inl ValueError"
    for start :: int and g
    by (simp add: end_date_def assms(4) unpack_simps bind_err_simps
        next_datetime_error [OF bad])
  show ?thesis
  proof (cases g1)
    case None
    then have "g3 = Some a" using assms(3) by simp
    then show ?thesis by (simp add: ps None tail bind_err_simps)
  next
    case (Some a1)
    then obtain cs1 where cs1: "parse_date (Some a1) = Some cs1"
      using assms(2) by auto
    from start_of_error [OF cs1] show ?thesis
    proof
      assume "\<exists>t. datetime_new (datetime_defaults cs1) = Inr t"
      then obtain t where t: "datetime_new (datetime_defaults cs1) = Inr t" by blast
      have "a1 \<noteq> a" using t cs1 assms(4) bad by auto
      then have "g3 = Some a" using assms(3) Some by simp
      then show ?thesis
        by (simp add: ps Some cs1 t tail unpack_simps bind_err_simps)
    next
      assume "datetime_new (datetime_defaults cs1) = Inl ValueError"
      then show ?thesis
        by (simp add: ps Some cs1 unpack_simps bind_err_simps)
    qed
  qed
qed

text \<open>
  The spec \<open>201813\<close>, month 13.
\<close>

theorem parse_startend_out_of_range_witness:
  "time_startend_match ''201813'' = Some (Some ''201813'', None, None)
   \<and> parse_date (Some ''201813'') = Some [2018, 13]
   \<and> datetime_defaults [2018, 13] = [2018, 13, 1]
   \<and> \<not> in_range 2018 13 1 []
   \<and> parse_startend (Some ''201813'') = Inl ValueError"
proof -
  have m: "time_startend_match ''201813'' = Some (Some ''201813'', None, None)" by code_simp
  have p: "parse_date (Some ''201813'') = Some [2018, 13]" by code_simp
  have d: "datetime_defaults [2018, 13] = [2018, 13, 1]" by code_simp
  have r: "\<not> in_range 2018 13 1 []" by (simp add: in_range_def)
  have a: "\<forall>b. Some ''201813'' = Some b \<or> None = Some b \<longrightarrow> parse_date (Some b) \<noteq> None"
    using p by simp
  from parse_startend_out_of_range [OF m a _ p d r] show ?thesis using m p d r by simp
qed


lemma datetime_new_year:
  assumes "1 \<le> y" and "y \<le> 9999"
  shows "datetime_new (datetime_defaults [y])
    = Inr \<lparr>year = y, month = 1, day = 1, hour = 0, minute = 0, second = 0\<rparr>"
  using assms
  by (simp add: datetime_defaults_def datetime_new_def in_range_def arg_def days_in_month_def)

lemma datetime_new_month:
  assumes "1 \<le> y" and "y \<le> 9999" and "1 \<le> m" and "m \<le> 12"
  shows "datetime_new (datetime_defaults [y, m])
    = Inr \<lparr>year = y, month = m, day = 1, hour = 0, minute = 0, second = 0\<rparr>"
proof -
  have d: "1 \<le> days_in_month y m" using days_in_month_bounds(1) [of y m] by simp
  show ?thesis
    using assms d by (simp add: datetime_defaults_def datetime_new_def in_range_def arg_def)
qed

text \<open>
  C6, as the code has it (the local time zone of the process being UTC). For a
  four-digit year string from 0001 to 9998 the range runs from the first second of the
  year to the first second of the next year, 365 or 366 days later. For a year and
  month string with the year from 0001 to 9998 and the month from 01 to 12 the range
  runs from the first second of the month to the first second of the next month, which
  is January of the next year after December; its length is the length of the month.
\<close>

theorem parse_startend_calendar_unit:
  "(list_all is_digit D \<and> length D = 4 \<and> y = int_of_digits D \<and> 1 \<le> y \<and> y \<le> 9998 \<longrightarrow>
      parse_startend (Some D)
        = Inr (epoch \<lparr>year = y, month = 1, day = 1, hour = 0, minute = 0, second = 0\<rparr>,
               epoch \<lparr>year = y + 1, month = 1, day = 1, hour = 0, minute = 0, second = 0\<rparr>)
      \<and> epoch \<lparr>year = y + 1, month = 1, day = 1, hour = 0, minute = 0, second = 0\<rparr>
          - epoch \<lparr>year = y, month = 1, day = 1, hour = 0, minute = 0, second = 0\<rparr>
          = 86400 * (if is_leap y then 366 else 365))
   \<and> (list_all is_digit D \<and> length D = 6 \<and> y = int_of_digits (take 4 D)
        \<and> m = int_of_digits (drop 4 D) \<and> 1 \<le> y \<and> y \<le> 9998 \<and> 1 \<le> m \<and> m \<le> 12 \<longrightarrow>
      parse_startend (Some D)
        = Inr (epoch \<lparr>year = y, month = m, day = 1, hour = 0, minute = 0, second = 0\<rparr>,
               epoch (if m = 12
                      then \<lparr>year = y + 1, month = 1, day = 1, hour = 0, minute = 0, second = 0\<rparr>
                      else \<lparr>year = y, month = m + 1, day = 1, hour = 0, minute = 0, second = 0\<rparr>))
      \<and> epoch (if m = 12
                then \<lparr>year = y + 1, month = 1, day = 1, hour = 0, minute = 0, second = 0\<rparr>
                else \<lparr>year = y, month = m + 1, day = 1, hour = 0, minute = 0, second = 0\<rparr>)
          - epoch \<lparr>year = y, month = m, day = 1, hour = 0, minute = 0, second = 0\<rparr>
          = 86400 * days_in_month y m)"
proof (intro conjI impI)
  assume h: "list_all is_digit D \<and> length D = 4 \<and> y = int_of_digits D \<and> 1 \<le> y \<and> y \<le> 9998"
  then have ne: "D \<noteq> []" by auto
  have m: "time_startend_match D = Some (Some D, None, None)"
    using h ne by (simp add: match_single)
  have p: "parse_date (Some D) = Some [y]" using h by (simp add: parse_date_year)
  show "parse_startend (Some D)
        = Inr (epoch \<lparr>year = y, month = 1, day = 1, hour = 0, minute = 0, second = 0\<rparr>,
               epoch \<lparr>year = y + 1, month = 1, day = 1, hour = 0, minute = 0, second = 0\<rparr>)"
    using h
    by (simp add: parse_startend_Some [OF ne] m p end_date_def unpack_simps bind_err_simps
        datetime_new_year next_datetime_year)
  let ?t = "\<lparr>year = y, month = 1, day = 1, hour = 0, minute = 0, second = 0\<rparr>"
  have "add_years1 ?t = Inr \<lparr>year = y + 1, month = 1, day = 1, hour = 0, minute = 0, second = 0\<rparr>"
    using h by (simp add: add_years1_def Let_def days_in_month_def)
  from add_years1_epoch [OF this]
  show "epoch \<lparr>year = y + 1, month = 1, day = 1, hour = 0, minute = 0, second = 0\<rparr>
          - epoch ?t = 86400 * (if is_leap y then 366 else 365)"
    by simp
next
  assume h: "list_all is_digit D \<and> length D = 6 \<and> y = int_of_digits (take 4 D)
        \<and> m = int_of_digits (drop 4 D) \<and> 1 \<le> y \<and> y \<le> 9998 \<and> 1 \<le> m \<and> m \<le> 12"
  then have ne: "D \<noteq> []" by auto
  have mt: "time_startend_match D = Some (Some D, None, None)"
    using h ne by (simp add: match_single)
  have p: "parse_date (Some D) = Some [y, m]" using h by (simp add: parse_date_month)
  let ?t = "\<lparr>year = y, month = m, day = 1, hour = 0, minute = 0, second = 0\<rparr>"
  let ?n = "if m = 12
            then \<lparr>year = y + 1, month = 1, day = 1, hour = 0, minute = 0, second = 0\<rparr>
            else \<lparr>year = y, month = m + 1, day = 1, hour = 0, minute = 0, second = 0\<rparr>"
  have b: "1 \<le> y" "y \<le> 9998" "1 \<le> m" "m \<le> 12" using h by auto
  have b': "y \<le> 9999" using b(2) by simp
  have nx: "next_datetime [y, m] = Inr (Some ?n)"
    by (rule next_datetime_month [OF b])
  have dn: "datetime_new (datetime_defaults [y, m]) = Inr ?t"
    by (rule datetime_new_month [OF b(1) b' b(3,4)])
  show "parse_startend (Some D) = Inr (epoch ?t, epoch ?n)"
    by (simp only: parse_startend_Some [OF ne] mt p end_date_def unpack_simps bind_err_simps
        dn nx option.case prod.case)
  from next_after [OF dn nx] have "epoch ?t < epoch ?n" .
  have d': "min (days_in_month y' m') 1 = 1" for y' m'
    using days_in_month_bounds(1) [of y' m'] by simp
  have "add_months1 ?t = Inr ?n"
    using b by (simp add: add_months1_def Let_def d')
  from add_months1_epoch [OF this] b
  show "epoch ?n - epoch ?t = 86400 * days_in_month y m"
    by simp
qed

text \<open>
  The leap year 2020 and December 2018.
\<close>

theorem parse_startend_calendar_unit_witness:
  "parse_startend (Some ''2020'') = Inr (1577836800, 1609459200)
   \<and> (1609459200::int) - 1577836800 = 86400 * 366
   \<and> parse_startend (Some ''201812'') = Inr (1543622400, 1546300800)
   \<and> (1546300800::int) - 1543622400 = 86400 * 31"
proof -
  have d: "list_all is_digit ''2020''" "length ''2020'' = 4" "int_of_digits ''2020'' = 2020"
    "is_leap 2020"
    by code_simp+
  have e: "epoch \<lparr>year = 2020, month = 1, day = 1, hour = 0, minute = 0, second = 0\<rparr> = 1577836800"
    "epoch \<lparr>year = 2020 + 1, month = 1, day = 1, hour = 0, minute = 0, second = 0\<rparr> = 1609459200"
    by code_simp+
  have d2: "list_all is_digit ''201812''" "length ''201812'' = 6"
    "int_of_digits (take 4 ''201812'') = 2018" "int_of_digits (drop 4 ''201812'') = 12"
    by code_simp+
  have e2: "epoch \<lparr>year = 2018, month = 12, day = 1, hour = 0, minute = 0, second = 0\<rparr> = 1543622400"
    "epoch \<lparr>year = 2018 + 1, month = 1, day = 1, hour = 0, minute = 0, second = 0\<rparr> = 1546300800"
    by code_simp+
  from parse_startend_calendar_unit [of "''2020''" 2020 0] d e
  have r1: "parse_startend (Some ''2020'') = Inr (1577836800, 1609459200)"
    by simp
  from parse_startend_calendar_unit [of "''201812''" 2018 12] d2 e2
  have r2: "parse_startend (Some ''201812'') = Inr (1543622400, 1546300800)"
    by simp
  show ?thesis using r1 r2 by simp
qed

text \<open>
  C6 as stated fails for the year 9999: the year after it is not a \<^verbatim>\<open>datetime\<close>, and
  \<^verbatim>\<open>next_datetime\<close> raises.
\<close>

theorem parse_startend_year_9999:
  "list_all is_digit ''9999'' \<and> length ''9999'' = 4
   \<and> parse_startend (Some ''9999'') = Inl ValueError"
  by code_simp

text \<open>The shapes of a match of the date-range pattern.\<close>

lemma match_shapes:
  assumes "time_startend_match s = Some (g1, g2, g3)"
  shows "(g2 = None \<and> g3 = None \<and> CHR ''-'' \<notin> set s)
         \<or> (\<exists>h. g2 = Some h \<and> g3 = None)
         \<or> (\<exists>h B. g2 = Some h \<and> g3 = Some B)"
proof (cases "dropWhile is_digit (strip_newline s)")
  case Nil
  then have d: "\<forall>c\<in>set (strip_newline s). is_digit c"
    by (simp add: dropWhile_eq_Nil_conv)
  have "set s \<subseteq> set (strip_newline s) \<union> {CHR 0x0A}"
  proof (cases "s \<noteq> [] \<and> last s = CHR 0x0A")
    case True
    then have "s = butlast s @ [CHR 0x0A]" using append_butlast_last_id [of s] by simp
    then have "set s = set (butlast s) \<union> {CHR 0x0A}"
      by (metis Un_insert_right list.simps(15) set_append sup_bot.right_neutral list.set(1))
    then show ?thesis using True by (simp add: strip_newline_def)
  next
    case False
    then show ?thesis by (auto simp: strip_newline_def)
  qed
  then have "CHR ''-'' \<notin> set s" using d not_digit_nl(2) by auto
  moreover have "g2 = None \<and> g3 = None"
    using assms unfolding time_startend_match_def Let_def Nil by simp
  ultimately show ?thesis by simp
next
  case (Cons c b)
  then show ?thesis
    using assms unfolding time_startend_match_def Let_def Cons
    by (cases g3) (auto split: if_splits)
qed

text \<open>
  C9, as the code has it, shape by shape. A range that \<^verbatim>\<open>parse_startend\<close> returns for an
  absent spec, for a spec without a hyphen (shape \<open>A\<close>) or for a spec that does not match
  the date-range pattern has \<open>start < end\<close>. For a spec with an end date \<open>B\<close>
  (\<open>A-B\<close> or \<open>-B\<close>), \<open>start < end\<close> holds when the start is not after the epoch second
  of \<open>B\<close>; the two dates are not compared by the code. For a spec that ends with the
  hyphen, the end is 4000-01-02 00:00:00 (64060675200), the day after \<^verbatim>\<open>max_date\<close>: the
  range of \<open>-\<close> starts at 0 and is ordered, the range of \<open>A-\<close> is ordered when the
  epoch second of \<open>A\<close> is below that end. A match has no group 2, and then the spec
  has no hyphen, or group 2 without group 3, or group 3: the three parts cover every
  spec.
\<close>

theorem parse_startend_ordered:
  assumes "parse_startend v = Inr (a, b)"
  shows "(v = None \<or> (\<exists>s. v = Some s \<and> (CHR ''-'' \<notin> set s \<or> time_startend_match s = None))
           \<longrightarrow> a < b)
         \<and> (\<forall>s g1 g2 B cs tB.
               v = Some s \<and> time_startend_match s = Some (g1, g2, Some B)
               \<and> parse_date (Some B) = Some cs
               \<and> datetime_new (datetime_defaults cs) = Inr tB \<and> a \<le> epoch tB
             \<longrightarrow> a < b)
         \<and> (\<forall>s g1 h.
               v = Some s \<and> time_startend_match s = Some (g1, Some h, None)
               \<and> (g1 = None \<or> a < 64060675200)
             \<longrightarrow> a < b)"
proof (intro conjI impI allI)
  assume h: "v = None \<or> (\<exists>s. v = Some s \<and> (CHR ''-'' \<notin> set s \<or> time_startend_match s = None))"
  show "a < b"
  proof (cases "v = None \<or> v = Some []")
    case True
    then show ?thesis using assms parse_startend_default by auto
  next
    case False
    then obtain s where s: "v = Some s" "s \<noteq> []"
      and s3: "CHR ''-'' \<notin> set s \<or> time_startend_match s = None"
      using h by auto
    show ?thesis
    proof (cases "time_startend_match s")
      case None
      then show ?thesis using assms s by (simp add: parse_startend_Some)
    next
      case (Some g)
      then obtain g1 g2 g3 where g: "time_startend_match s = Some (g1, g2, g3)"
        by (cases g) auto
      have "CHR ''-'' \<notin> set s" using s3 g by simp
      from match_no_hyphen [OF g this] have g23: "g2 = None" "g3 = None" by simp_all
      show ?thesis
      proof (cases g1)
        case None
        then show ?thesis
          using assms s
          by (simp add: parse_startend_Some g g23 end_date_def parse_date_def
              unpack_simps bind_err_simps)
      next
        case (Some A)
        have ps: "parse_startend (Some s) =
            bind_err (unpack (parse_date (Some A))) (\<lambda>cs.
              bind_err (datetime_new (datetime_defaults cs)) (\<lambda>start_dt.
              bind_err (next_datetime cs) (\<lambda>end_dt.
                 case end_dt of
                   None \<Rightarrow> Inl AttributeError
                 | Some t \<Rightarrow> Inr (epoch start_dt, epoch t))))"
          by (cases "parse_date (Some A)")
             (simp_all add: parse_startend_Some [OF s(2)] g g23 Some end_date_def
               unpack_simps bind_err_simps bind_err_def split: sum.splits)
        from assms s(1) ps obtain cs t1 t2 where
          "parse_date (Some A) = Some cs" "datetime_new (datetime_defaults cs) = Inr t1"
          "next_datetime cs = Inr (Some t2)" "a = epoch t1" "b = epoch t2"
          by (auto simp: bind_err_def unpack_def split: sum.splits option.splits)
        then show ?thesis using next_after by simp
      qed
    qed
  qed
next
  fix s g1 g2 B cs tB
  assume h: "v = Some s \<and> time_startend_match s = Some (g1, g2, Some B)
               \<and> parse_date (Some B) = Some cs
               \<and> datetime_new (datetime_defaults cs) = Inr tB \<and> a \<le> epoch tB"
  then have ne: "s \<noteq> []"
    by (auto simp: time_startend_match_def strip_newline_def nonempty_def)
  have "\<exists>t2. next_datetime cs = Inr (Some t2) \<and> b = epoch t2"
    using assms h
    by (auto simp: parse_startend_Some [OF ne] end_date_def bind_err_def unpack_def
        split: sum.splits option.splits)
  then obtain t2 where t2: "next_datetime cs = Inr (Some t2)" "b = epoch t2" by blast
  from h have dn: "datetime_new (datetime_defaults cs) = Inr tB" by simp
  have "epoch tB < b" using next_after [OF dn t2(1)] t2(2) by simp
  then show "a < b" using h by simp
next
  fix s g1 h
  assume h: "v = Some s \<and> time_startend_match s = Some (g1, Some h, None)
               \<and> (g1 = None \<or> a < 64060675200)"
  then have ne: "s \<noteq> []"
    by (auto simp: time_startend_match_def strip_newline_def nonempty_def)
  have e: "end_date g1 (Some h) None = Some max_date"
    by (simp add: end_date_def)
  have ps: "parse_startend (Some s) =
      bind_err
        (case g1 of
           None \<Rightarrow> Inr 0
         | Some A \<Rightarrow>
             bind_err (unpack (parse_date (Some A))) (\<lambda>cs.
             bind_err (datetime_new (datetime_defaults cs)) (\<lambda>start_dt.
               Inr (epoch start_dt))))
        (\<lambda>start. Inr (start, 64060675200))"
    using h
    by (simp add: parse_startend_Some [OF ne] e max_parse max_next max_next_epoch
        unpack_simps bind_err_simps)
  have b: "b = 64060675200"
    using assms h ps by (auto simp: bind_err_def split: sum.splits)
  have "g1 = None \<Longrightarrow> a = 0"
    using assms h ps by (auto simp: bind_err_def)
  then show "a < b" using h b by auto
qed

text \<open>
  The specs \<open>2018\<close>, \<open>2018-2019\<close>, \<open>2018-\<close> and \<open>-\<close>.
\<close>

theorem parse_startend_ordered_witness:
  "parse_startend (Some ''2018'') = Inr (1514764800, 1546300800)
   \<and> (1514764800::int) < 1546300800
   \<and> parse_startend (Some ''2018-2019'') = Inr (1514764800, 1577836800)
   \<and> (1514764800::int) < 1577836800
   \<and> parse_startend (Some ''2018-'') = Inr (1514764800, 64060675200)
   \<and> time_startend_match ''2018-'' = Some (Some ''2018'', Some ''-'', None)
   \<and> (1514764800::int) < 64060675200
   \<and> parse_startend (Some ''-'') = Inr (0, 64060675200)
   \<and> time_startend_match ''-'' = Some (None, Some ''-'', None)
   \<and> (0::int) < 64060675200"
proof -
  have r1: "parse_startend (Some ''2018'') = Inr (1514764800, 1546300800)" by code_simp
  have r2: "parse_startend (Some ''2018-2019'') = Inr (1514764800, 1577836800)" by code_simp
  have r3: "parse_startend (Some ''2018-'') = Inr (1514764800, 64060675200)" by code_simp
  have r4: "parse_startend (Some ''-'') = Inr (0, 64060675200)" by code_simp
  have c: "CHR ''-'' \<notin> set ''2018''" by simp
  have m: "time_startend_match ''2018-2019'' = Some (Some ''2018'', Some ''-2019'', Some ''2019'')"
    by code_simp
  have m3: "time_startend_match ''2018-'' = Some (Some ''2018'', Some ''-'', None)"
    by code_simp
  have m4: "time_startend_match ''-'' = Some (None, Some ''-'', None)"
    by code_simp
  have p: "parse_date (Some ''2019'') = Some [2019]" by code_simp
  have n: "datetime_new (datetime_defaults [2019])
      = Inr \<lparr>year = 2019, month = 1, day = 1, hour = 0, minute = 0, second = 0\<rparr>"
    by code_simp
  have e: "epoch \<lparr>year = 2019, month = 1, day = 1, hour = 0, minute = 0, second = 0\<rparr> = 1546300800"
    by code_simp
  from parse_startend_ordered [OF r1] c have o1: "(1514764800::int) < 1546300800" by blast
  have "(1514764800::int) \<le> epoch \<lparr>year = 2019, month = 1, day = 1, hour = 0, minute = 0, second = 0\<rparr>"
    using e by simp
  with parse_startend_ordered [OF r2, THEN conjunct2, THEN conjunct1, rule_format,
      of "''2018-2019''" "Some ''2018''" "Some ''-2019''" "''2019''" "[2019]"
        "\<lparr>year = 2019, month = 1, day = 1, hour = 0, minute = 0, second = 0\<rparr>"] m p n
  have o2: "(1514764800::int) < 1577836800"
    by simp
  from parse_startend_ordered [OF r3, THEN conjunct2, THEN conjunct2, rule_format,
      of "''2018-''" "Some ''2018''" "''-''"] m3
  have o3: "(1514764800::int) < 64060675200"
    by simp
  from parse_startend_ordered [OF r4, THEN conjunct2, THEN conjunct2, rule_format,
      of "''-''" None "''-''"] m4
  have o4: "(0::int) < 64060675200"
    by simp
  show ?thesis using r1 r2 r3 r4 m3 m4 o1 o2 o3 o4 by simp
qed

text \<open>
  C9 as stated fails: \<open>2020-2018\<close> matches the pattern and the range returned starts
  after its end.
\<close>

theorem parse_startend_reversed:
  "parse_startend (Some ''2020-2018'') = Inr (1577836800, 1546300800)
   \<and> (1546300800::int) < 1577836800"
  by code_simp


section \<open>Properties of the aggregation\<close>

lemma add_entry_assoc: "add_entry (add_entry a b) c = add_entry a (add_entry b c)"
  by (simp add: add_entry_def)

lemma add_entry_commute: "add_entry a b = add_entry b a"
  by (simp add: add_entry_def)

lemma add_entry_zero: "add_entry zero_totals a = a" "add_entry a zero_totals = a"
  by (simp_all add: add_entry_def zero_totals_def)

lemma add_entry_fields:
  "jobs (add_entry a b) = jobs a + jobs b"
  "time (add_entry a b) = time a + time b"
  "time_adj (add_entry a b) = time_adj a + time_adj b"
  by (simp_all add: add_entry_def)

lemma zero_totals_fields: "jobs zero_totals = 0" "time zero_totals = 0" "time_adj zero_totals = 0"
  by (simp_all add: zero_totals_def)

lemma foldl_add_entry: "foldl add_entry a es = add_entry a (foldl add_entry zero_totals es)"
proof (induction es arbitrary: a)
  case Nil
  then show ?case by (simp add: add_entry_zero)
next
  case (Cons e es)
  have "foldl add_entry a (e # es) = add_entry (add_entry a e) (foldl add_entry zero_totals es)"
    using Cons.IH [of "add_entry a e"] by simp
  also have "\<dots> = add_entry a (add_entry e (foldl add_entry zero_totals es))"
    by (rule add_entry_assoc)
  also have "add_entry e (foldl add_entry zero_totals es) = foldl add_entry zero_totals (e # es)"
    using Cons.IH [of "add_entry zero_totals e"] by (simp add: add_entry_zero)
  finally show ?case .
qed

lemma sum_totals_simps:
  "sum_totals [] = zero_totals"
  "sum_totals (e # es) = add_entry e (sum_totals es)"
  "sum_totals (xs @ ys) = add_entry (sum_totals xs) (sum_totals ys)"
proof -
  show "sum_totals [] = zero_totals" by (simp add: sum_totals_def)
  show "sum_totals (e # es) = add_entry e (sum_totals es)"
    using foldl_add_entry [of "add_entry zero_totals e" es]
    by (simp add: sum_totals_def add_entry_zero)
  show "sum_totals (xs @ ys) = add_entry (sum_totals xs) (sum_totals ys)"
    using foldl_add_entry [of "foldl add_entry zero_totals xs" ys]
    by (simp add: sum_totals_def)
qed

lemma sum_totals_fields:
  "jobs (sum_totals es) = sum_list (map jobs es)"
  "time (sum_totals es) = sum_list (map time es)"
  "time_adj (sum_totals es) = sum_list (map time_adj es)"
  by (induction es) (simp_all add: sum_totals_simps add_entry_fields zero_totals_fields)

lemma totals_eqI:
  fixes a b :: totals
  assumes "jobs a = jobs b" "time a = time b" "time_adj a = time_adj b"
  shows "a = b"
  using assms by (cases a, cases b) simp

text \<open>Assigning to a key of a dictionary changes the sum of a column by the difference
  of the old and the new entry.\<close>

lemma sum_update:
  fixes f :: "'v \<Rightarrow> int"
  shows "sum_list (map (f \<circ> snd) (AList.update k v al))
     = sum_list (map (f \<circ> snd) al) - (case map_of al k of None \<Rightarrow> 0 | Some x \<Rightarrow> f x) + f v"
  by (induction al) auto

lemma sum_filter_update:
  fixes f :: "'v \<Rightarrow> int"
  shows "sum_list (map (f \<circ> snd) (filter (\<lambda>(u', e). u' = u) (AList.update k v al)))
     = sum_list (map (f \<circ> snd) (filter (\<lambda>(u', e). u' = u) al))
       + (if k = u then f v - (case map_of al k of None \<Rightarrow> 0 | Some x \<Rightarrow> f x) else 0)"
  by (induction al) auto

lemma keys_update: "fst ` set (AList.update k v al) = insert k (fst ` set al)"
  by (induction al) auto

text \<open>The second loop, one user at a time.\<close>

lemma user_loop_lookup:
  "map_of (user_loop d us) u =
     (let es = map snd (filter (\<lambda>(u', e). u' = u) d)
      in if es = [] then map_of us u
         else Some (add_entry (or_zero (map_of us u)) (sum_totals es)))"
proof (induction d arbitrary: us)
  case Nil
  then show ?case by simp
next
  case (Cons p d)
  obtain user e where p: "p = (user, e)" by (cases p)
  let ?us = "AList.update user (add_entry (case map_of us user of None \<Rightarrow> zero_totals | Some u \<Rightarrow> u) e) us"
  have l: "map_of ?us u = (if u = user then Some (add_entry (or_zero (map_of us u)) e) else map_of us u)"
    by (simp add: update_conv' or_zero_def)
  show ?case
    unfolding p user_loop.simps Cons.IH [of ?us] l
    by (auto simp: Let_def or_zero_def sum_totals_simps add_entry_assoc add_entry_zero)
qed

lemma owner_loop_lookup:
  "map_of (owner_loop ow us) u =
     (if user_entries ow u = [] then map_of us u
      else Some (add_entry (or_zero (map_of us u)) (sum_totals (user_entries ow u))))"
proof (induction ow arbitrary: us)
  case Nil
  then show ?case by (simp add: user_entries_def)
next
  case (Cons p ow)
  obtain own d where p: "p = (own, d)" by (cases p)
  have ue: "user_entries (p # ow) u = map snd (filter (\<lambda>(u', e). u' = u) d) @ user_entries ow u"
    by (simp add: user_entries_def p)
  show ?case
    unfolding p owner_loop.simps Cons.IH [of "user_loop d us"] user_loop_lookup ue [unfolded p]
    by (auto simp: Let_def or_zero_def sum_totals_simps add_entry_assoc add_entry_zero)
qed

lemma user_summary_lookup:
  "map_of (user_summary ow) u =
     (if user_entries ow u = [] then None else Some (sum_totals (user_entries ow u)))"
  by (simp add: user_summary_def owner_loop_lookup or_zero_def add_entry_zero)

text \<open>The third loop.\<close>

lemma summary_loop_fields:
  "jobs (summary_loop es s) = jobs s + sum_list (map jobs es)"
  "time (summary_loop es s) = time s + sum_list (map time es)"
  "time_adj (summary_loop es s) = time_adj s + sum_list (map time_adj es)"
  "users (summary_loop es s) = users s + int (length es)"
  by (induction es arbitrary: s) simp_all

lemma owner_summaries_lookup:
  "map_of (owner_summaries ow) own
     = map_option (\<lambda>d. summary_loop (map snd d) zero_summary) (map_of ow own)"
  by (induction ow) (auto simp: owner_summaries_def)

text \<open>The first loop: one record.\<close>

lemma totals_update_all:
  fixes x :: totals
  shows "x\<lparr>jobs := a, time := b, time_adj := c\<rparr> = \<lparr>jobs = a, time = b, time_adj = c\<rparr>"
  by (cases x) simp

lemma record_usage_Inr:
  assumes "record_usage env r (ow, w) = Inr (ow', w')"
  obtains out t0 t1 where "core_hours env r = Inr (out, t0, t1)"
    and "w' = w @ out"
    and "ow' = AList.update (equip_owner r)
            (AList.update (owner r)
               (add_entry (or_zero (entry ow (equip_owner r) (owner r))) (usage env r))
               (case map_of ow (equip_owner r) of None \<Rightarrow> [] | Some d \<Rightarrow> d))
            ow"
proof -
  from assms obtain out t0 t1 where c: "core_hours env r = Inr (out, t0, t1)"
    by (cases "core_hours env r") (auto simp: record_usage_def bind_err_def Let_def)
  have u: "usage env r = \<lparr>jobs = 1, time = t0, time_adj = t1\<rparr>"
    by (simp add: usage_def c)
  show ?thesis
  proof (rule that [OF c])
    show "w' = w @ out" using assms by (simp add: record_usage_def bind_err_def Let_def c)
    show "ow' = AList.update (equip_owner r)
            (AList.update (owner r)
               (add_entry (or_zero (entry ow (equip_owner r) (owner r))) (usage env r))
               (case map_of ow (equip_owner r) of None \<Rightarrow> [] | Some d \<Rightarrow> d))
            ow"
      using assms
      by (auto simp: record_usage_def bind_err_def Let_def c u entry_def or_zero_def
          add_entry_def zero_totals_def totals_update_all split: option.splits)
  qed
qed

lemma record_usage_ok:
  "(\<exists>st'. record_usage env r st = Inr st') \<longleftrightarrow> (\<exists>x. core_hours env r = Inr x)"
  by (cases "core_hours env r") (auto simp: record_usage_def bind_err_def Let_def)


lemma entry_step:
  "entry (AList.update own
            (AList.update user e (case map_of ow own of None \<Rightarrow> [] | Some d \<Rightarrow> d)) ow) k u
     = (if k = own \<and> u = user then Some e else entry ow k u)"
  by (auto simp: entry_def update_conv' split: option.splits)

lemma user_entries_other:
  assumes "u \<noteq> user"
  shows "user_entries (AList.update own
            (AList.update user e (case map_of ow own of None \<Rightarrow> [] | Some d \<Rightarrow> d)) ow) u
     = user_entries ow u"
proof -
  have f: "filter (\<lambda>(u', e). u' = u) (AList.update user e d) = filter (\<lambda>(u', e). u' = u) d" for d
    using assms by (induction d) auto
  show ?thesis
    using assms by (induction ow) (auto simp: user_entries_def f)
qed

lemma user_entries_sum:
  fixes f :: "totals \<Rightarrow> int"
  shows "sum_list (map f (user_entries ow u))
     = sum_list (map ((\<lambda>d. sum_list (map (f \<circ> snd) (filter (\<lambda>(u', e). u' = u) d))) \<circ> snd) ow)"
  by (induction ow) (auto simp: user_entries_def comp_def)

lemma user_entries_same_sum:
  fixes f :: "totals \<Rightarrow> int"
  shows "sum_list (map f (user_entries (AList.update own
            (AList.update user e (case map_of ow own of None \<Rightarrow> [] | Some d \<Rightarrow> d)) ow) user))
     = sum_list (map f (user_entries ow user)) + f e
        - (case entry ow own user of None \<Rightarrow> 0 | Some x \<Rightarrow> f x)"
proof -
  let ?g = "\<lambda>d. sum_list (map (f \<circ> snd) (filter (\<lambda>(u', e). u' = user) d))"
  let ?d = "case map_of ow own of None \<Rightarrow> [] | Some d \<Rightarrow> d"
  have g: "?g (AList.update user e ?d)
      = ?g ?d + (f e - (case map_of ?d user of None \<Rightarrow> 0 | Some x \<Rightarrow> f x))"
    using sum_filter_update [of f user user e ?d] by simp
  have o': "(case map_of ow own of None \<Rightarrow> 0 | Some d \<Rightarrow> ?g d) = ?g ?d"
    by (simp split: option.splits)
  have e: "(case map_of ?d user of None \<Rightarrow> 0 | Some x \<Rightarrow> f x)
      = (case entry ow own user of None \<Rightarrow> 0 | Some x \<Rightarrow> f x)"
    by (simp add: entry_def split: option.splits)
  show ?thesis
    unfolding user_entries_sum sum_update [of ?g] o' g e by simp
qed

lemma user_entries_mem:
  "(own, d) \<in> set ow \<Longrightarrow> (u, e) \<in> set d \<Longrightarrow> user_entries ow u \<noteq> []"
  by (induction ow) (auto simp: user_entries_def filter_empty_conv)

lemma update_mem: "(k, v) \<in> set (AList.update k v al)"
  by (induction al) auto

lemma user_entries_same_ne:
  "user_entries (AList.update own (AList.update user e d) ow) user \<noteq> []"
  using update_mem [of own "AList.update user e d" ow] update_mem [of user e d]
  by (rule user_entries_mem)


lemma or_zero_fields:
  "jobs (or_zero v) = (case v of None \<Rightarrow> 0 | Some x \<Rightarrow> jobs x)"
  "time (or_zero v) = (case v of None \<Rightarrow> 0 | Some x \<Rightarrow> time x)"
  "time_adj (or_zero v) = (case v of None \<Rightarrow> 0 | Some x \<Rightarrow> time_adj x)"
  by (simp_all add: or_zero_def zero_totals_def split: option.splits)

lemma summary_totals_loop:
  "jobs (summary_totals (summary_loop es zero_summary)) = sum_list (map jobs es)"
  "time (summary_totals (summary_loop es zero_summary)) = sum_list (map time es)"
  "time_adj (summary_totals (summary_loop es zero_summary)) = sum_list (map time_adj es)"
  by (simp_all add: summary_totals_def summary_loop_fields zero_summary_def)

text \<open>What one pass of the first loop does to the three dictionaries.\<close>

lemma step_entry:
  assumes "record_usage env r (ow, w) = Inr (ow', w')"
  shows "entry ow' k u =
     (if k = equip_owner r \<and> u = owner r
      then Some (add_entry (or_zero (entry ow k u)) (usage env r))
      else entry ow k u)"
  using assms by (elim record_usage_Inr) (simp add: entry_step)

lemma step_users:
  assumes "record_usage env r (ow, w) = Inr (ow', w')"
  shows "map_of (user_summary ow') u =
     (if u = owner r
      then Some (add_entry (or_zero (map_of (user_summary ow) u)) (usage env r))
      else map_of (user_summary ow) u)"
proof -
  let ?e = "add_entry (or_zero (entry ow (equip_owner r) (owner r))) (usage env r)"
  from assms have ow': "ow' = AList.update (equip_owner r)
            (AList.update (owner r) ?e
               (case map_of ow (equip_owner r) of None \<Rightarrow> [] | Some d \<Rightarrow> d)) ow"
    by (elim record_usage_Inr)
  show ?thesis
  proof (cases "u = owner r")
    case False
    then show ?thesis
      by (simp add: user_summary_lookup ow' user_entries_other)
  next
    case True
    have ne: "user_entries ow' u \<noteq> []"
      unfolding ow' True by (rule user_entries_same_ne)
    have z: "or_zero (map_of (user_summary ow) u) = sum_totals (user_entries ow u)"
      by (simp add: user_summary_lookup or_zero_def sum_totals_simps)
    have s: "sum_list (map f (user_entries ow' u))
        = sum_list (map f (user_entries ow u)) + f ?e
          - (case entry ow (equip_owner r) (owner r) of None \<Rightarrow> 0 | Some x \<Rightarrow> f x)"
      for f :: "totals \<Rightarrow> int"
      unfolding ow' True by (rule user_entries_same_sum)
    have key: "sum_totals (user_entries ow' u)
        = add_entry (sum_totals (user_entries ow u)) (usage env r)"
      by (rule totals_eqI)
         (simp_all add: sum_totals_fields add_entry_fields s or_zero_fields)
    have "map_of (user_summary ow') u = Some (sum_totals (user_entries ow' u))"
      using ne by (simp add: user_summary_lookup)
    also have "\<dots> = Some (add_entry (or_zero (map_of (user_summary ow) u)) (usage env r))"
      by (simp only: key z)
    finally show ?thesis using True by simp
  qed
qed

lemma step_summaries:
  assumes "record_usage env r (ow, w) = Inr (ow', w')"
  shows "map_option summary_totals (map_of (owner_summaries ow') k) =
     (if k = equip_owner r
      then Some (add_entry (or_zero (map_option summary_totals (map_of (owner_summaries ow) k)))
                  (usage env r))
      else map_option summary_totals (map_of (owner_summaries ow) k))"
proof -
  let ?e = "add_entry (or_zero (entry ow (equip_owner r) (owner r))) (usage env r)"
  let ?d = "case map_of ow (equip_owner r) of None \<Rightarrow> [] | Some d \<Rightarrow> d"
  from assms have ow': "ow' = AList.update (equip_owner r) (AList.update (owner r) ?e ?d) ow"
    by (elim record_usage_Inr)
  show ?thesis
  proof (cases "k = equip_owner r")
    case False
    then show ?thesis by (simp add: owner_summaries_lookup ow' update_conv')
  next
    case True
    have s: "sum_list (map (f \<circ> snd) (AList.update (owner r) ?e ?d))
        = sum_list (map (f \<circ> snd) ?d) + f ?e
          - (case entry ow (equip_owner r) (owner r) of None \<Rightarrow> 0 | Some x \<Rightarrow> f x)"
      for f :: "totals \<Rightarrow> int"
      using sum_update [of f "owner r" ?e ?d]
      by (simp add: entry_def split: option.splits)
    have z: "or_zero (map_option summary_totals (map_of (owner_summaries ow) k))
        = summary_totals (summary_loop (map snd ?d) zero_summary)"
      by (auto simp: owner_summaries_lookup True or_zero_def summary_totals_def
          zero_summary_def zero_totals_def split: option.splits)
    have key: "summary_totals (summary_loop (map snd (AList.update (owner r) ?e ?d)) zero_summary)
        = add_entry (summary_totals (summary_loop (map snd ?d) zero_summary)) (usage env r)"
      by (rule totals_eqI)
         (simp_all add: summary_totals_loop add_entry_fields s or_zero_fields)
    have "map_option summary_totals (map_of (owner_summaries ow') k)
        = Some (summary_totals
            (summary_loop (map snd (AList.update (owner r) ?e ?d)) zero_summary))"
      using True by (simp add: owner_summaries_lookup ow' update_conv')
    also have "\<dots> = Some (add_entry
        (or_zero (map_option summary_totals (map_of (owner_summaries ow) k))) (usage env r))"
      by (simp only: key z)
    finally show ?thesis using True by simp
  qed
qed

lemma tally_snoc:
  "tally env p (rs @ [r]) =
     (if p r then Some (add_entry (or_zero (tally env p rs)) (usage env r))
      else tally env p rs)"
  by (simp add: tally_def Let_def or_zero_def sum_totals_simps add_entry_zero)


lemma collect_append:
  "collect env (xs @ ys) st = bind_err (collect env xs st) (collect env ys)"
proof (induction xs arbitrary: st)
  case Nil
  then show ?case by (simp add: bind_err_simps)
next
  case (Cons x xs)
  then show ?case
    by (cases "record_usage env x st") (simp_all add: bind_err_simps)
qed

lemma collect_snoc:
  assumes "collect env (rs @ [r]) st = Inr (ow, w)"
  obtains ow0 w0 where "collect env rs st = Inr (ow0, w0)"
    and "record_usage env r (ow0, w0) = Inr (ow, w)"
proof -
  from assms obtain st0 where c: "collect env rs st = Inr st0"
    by (cases "collect env rs st") (simp_all add: collect_append bind_err_simps)
  obtain ow0 w0 where st0: "st0 = (ow0, w0)" by (cases st0)
  have "record_usage env r (ow0, w0) = Inr (ow, w)"
    using assms
    by (cases "record_usage env r (ow0, w0)")
       (simp_all add: collect_append c st0 bind_err_simps)
  then show ?thesis using c st0 that by simp
qed

lemma collect_ok:
  "(\<exists>st'. collect env rs st = Inr st') \<longleftrightarrow> (\<forall>r\<in>set rs. \<exists>x. core_hours env r = Inr x)"
proof (induction rs arbitrary: st)
  case Nil
  then show ?case by simp
next
  case (Cons r rs)
  show ?case
  proof (cases "record_usage env r st")
    case (Inl e)
    then have "\<not> (\<exists>x. core_hours env r = Inr x)"
      using record_usage_ok [of env r st] by simp
    then show ?thesis using Inl by (simp add: bind_err_simps)
  next
    case (Inr st1)
    then have "\<exists>x. core_hours env r = Inr x"
      using record_usage_ok [of env r st] by blast
    then show ?thesis using Inr Cons.IH [of st1] by (simp add: bind_err_simps)
  qed
qed

lemma collect_stderr:
  "collect env rs (ow0, w0) = Inr (ow, w) \<Longrightarrow> w = w0 @ stderr_lines env rs"
proof (induction rs arbitrary: ow0 w0)
  case Nil
  then show ?case by (simp add: stderr_lines_def)
next
  case (Cons r rs)
  from Cons.prems obtain ow1 w1 where r: "record_usage env r (ow0, w0) = Inr (ow1, w1)"
    and c: "collect env rs (ow1, w1) = Inr (ow, w)"
    by (cases "record_usage env r (ow0, w0)") (auto simp: bind_err_simps)
  from r obtain out t0 t1 where "core_hours env r = Inr (out, t0, t1)" "w1 = w0 @ out"
    by (elim record_usage_Inr)
  then show ?case using Cons.IH [OF c] by (simp add: stderr_lines_def)
qed

text \<open>The three dictionaries after the first loop, as sums over the records.\<close>

lemma collect_views:
  assumes "collect env rs ([], []) = Inr (ow, w)"
  shows "entry ow k u = tally env (\<lambda>r. equip_owner r = k \<and> owner r = u) rs"
    and "map_of (user_summary ow) u = tally env (\<lambda>r. owner r = u) rs"
    and "map_option summary_totals (map_of (owner_summaries ow) k)
          = tally env (\<lambda>r. equip_owner r = k) rs"
  using assms
proof (induction rs arbitrary: ow w rule: rev_induct)
  case Nil
  {
    case 1
    then show ?case by (simp add: entry_def tally_def)
  next
    case 2
    then show ?case by (simp add: user_summary_def tally_def)
  next
    case 3
    then show ?case by (simp add: owner_summaries_def tally_def)
  }
next
  case (snoc r rs)
  {
    case 1
    from 1 obtain ow0 w0 where c: "collect env rs ([], []) = Inr (ow0, w0)"
      and s: "record_usage env r (ow0, w0) = Inr (ow, w)"
      by (rule collect_snoc)
    show ?case
      unfolding step_entry [OF s] tally_snoc snoc.IH(1) [OF c] by auto
  next
    case 2
    from 2 obtain ow0 w0 where c: "collect env rs ([], []) = Inr (ow0, w0)"
      and s: "record_usage env r (ow0, w0) = Inr (ow, w)"
      by (rule collect_snoc)
    show ?case
      unfolding step_users [OF s] tally_snoc snoc.IH(2) [OF c] by auto
  next
    case 3
    from 3 obtain ow0 w0 where c: "collect env rs ([], []) = Inr (ow0, w0)"
      and s: "record_usage env r (ow0, w0) = Inr (ow, w)"
      by (rule collect_snoc)
    show ?case
      unfolding step_summaries [OF s] tally_snoc snoc.IH(3) [OF c] by auto
  }
qed

lemma tally_append:
  "tally env p (xs @ ys) =
     (case tally env p xs of
        None \<Rightarrow> tally env p ys
      | Some x \<Rightarrow> (case tally env p ys of None \<Rightarrow> Some x | Some y \<Rightarrow> Some (add_entry x y)))"
  by (simp add: tally_def Let_def sum_totals_simps add_entry_zero)

lemma tally_merge:
  "(\<lambda>k. tally env (p k) (xs @ ys))
     = merge_totals (\<lambda>k. tally env (p k) xs) (\<lambda>k. tally env (p k) ys)"
  by (rule ext) (simp add: merge_totals_def tally_append)

lemma sum_list_mset_cong:
  fixes g :: "'a \<Rightarrow> int"
  assumes "mset xs = mset ys"
  shows "sum_list (map g xs) = sum_list (map g ys)"
proof -
  have "sum_list (map g xs) = sum_mset (image_mset g (mset xs))"
    by (simp flip: sum_mset_sum_list)
  also have "\<dots> = sum_mset (image_mset g (mset ys))" using assms by simp
  also have "\<dots> = sum_list (map g ys)" by (simp flip: sum_mset_sum_list)
  finally show ?thesis .
qed

lemma tally_perm:
  assumes "mset xs = mset ys"
  shows "tally env p xs = tally env p ys"
proof -
  have m: "mset (filter p xs) = mset (filter p ys)" using assms by simp
  then have e: "filter p xs = [] \<longleftrightarrow> filter p ys = []"
    by (metis mset_zero_iff)
  have "sum_totals (map (usage env) (filter p xs)) = sum_totals (map (usage env) (filter p ys))"
    by (rule totals_eqI)
       (simp_all add: sum_totals_fields comp_def
          sum_list_mset_cong [OF m, of "\<lambda>r. jobs (usage env r)"]
          sum_list_mset_cong [OF m, of "\<lambda>r. time (usage env r)"]
          sum_list_mset_cong [OF m, of "\<lambda>r. time_adj (usage env r)"])
  then show ?thesis using e by (simp add: tally_def Let_def)
qed


text \<open>The keys of every inner dictionary stay distinct.\<close>

lemma set_update_subset: "set (AList.update k v al) \<subseteq> insert (k, v) (set al)"
  by (induction al) auto

lemma record_usage_distinct:
  assumes "record_usage env r (ow, w) = Inr (ow', w')"
    and "\<forall>(k, d)\<in>set ow. distinct (map fst d)"
  shows "\<forall>(k, d)\<in>set ow'. distinct (map fst d)"
proof -
  let ?e = "add_entry (or_zero (entry ow (equip_owner r) (owner r))) (usage env r)"
  let ?d = "case map_of ow (equip_owner r) of None \<Rightarrow> [] | Some d \<Rightarrow> d"
  from assms(1) have ow': "ow' = AList.update (equip_owner r) (AList.update (owner r) ?e ?d) ow"
    by (elim record_usage_Inr)
  have "distinct (map fst ?d)"
    using assms(2) by (auto split: option.splits dest: map_of_SomeD)
  then have "distinct (map fst (AList.update (owner r) ?e ?d))"
    by (rule distinct_update)
  then show ?thesis
    using assms(2) set_update_subset [of "equip_owner r" "AList.update (owner r) ?e ?d" ow]
    unfolding ow' by blast
qed

lemma collect_distinct:
  assumes "collect env rs (ow0, w0) = Inr (ow, w)"
    and "\<forall>(k, d)\<in>set ow0. distinct (map fst d)"
  shows "\<forall>(k, d)\<in>set ow. distinct (map fst d)"
  using assms
proof (induction rs arbitrary: ow0 w0)
  case Nil
  then show ?case by simp
next
  case (Cons r rs)
  from Cons.prems(1) obtain ow1 w1 where r: "record_usage env r (ow0, w0) = Inr (ow1, w1)"
    and c: "collect env rs (ow1, w1) = Inr (ow, w)"
    by (cases "record_usage env r (ow0, w0)") (auto simp: bind_err_simps)
  show ?case
    by (rule Cons.IH [OF c]) (rule record_usage_distinct [OF r Cons.prems(2)])
qed

lemma tally_None: "tally env p rs = None \<longleftrightarrow> (\<forall>r\<in>set rs. \<not> p r)"
  by (simp add: tally_def Let_def filter_empty_conv)

text \<open>The number of users in an owner's summary is the number of distinct job owners
  among the owner's records.\<close>

lemma collect_users_count:
  assumes "collect env rs ([], []) = Inr (ow, w)"
  shows "map_option users (map_of (owner_summaries ow) k)
     = (if \<exists>r\<in>set rs. equip_owner r = k
        then Some (int (card (owner ` {r \<in> set rs. equip_owner r = k})))
        else None)"
proof (cases "map_of ow k")
  case None
  then have "map_option summary_totals (map_of (owner_summaries ow) k) = None"
    by (simp add: owner_summaries_lookup)
  then have "\<forall>r\<in>set rs. equip_owner r \<noteq> k"
    unfolding collect_views(3) [OF assms] tally_None by simp
  then show ?thesis using None by (auto simp: owner_summaries_lookup)
next
  case (Some d)
  then have "map_option summary_totals (map_of (owner_summaries ow) k) \<noteq> None"
    by (simp add: owner_summaries_lookup)
  then have ex: "\<exists>r\<in>set rs. equip_owner r = k"
    unfolding collect_views(3) [OF assms] tally_None by simp
  have "(k, d) \<in> set ow" using Some by (rule map_of_SomeD)
  then have dist: "distinct (map fst d)"
    using collect_distinct [OF assms] by auto
  have "fst ` set d = {u. entry ow k u \<noteq> None}"
    by (auto simp: entry_def Some dom_map_of_conv_image_fst [symmetric] dom_def)
  also have "\<dots> = owner ` {r \<in> set rs. equip_owner r = k}"
    unfolding collect_views(1) [OF assms] tally_None by auto
  finally have "card (owner ` {r \<in> set rs. equip_owner r = k}) = length d"
    using distinct_card [OF dist] by simp
  then show ?thesis
    using ex by (simp add: owner_summaries_lookup Some summary_loop_fields zero_summary_def)
qed

text \<open>The sums of a column over the three dictionaries.\<close>

lemma column_simps:
  "column f [] = 0" "column f ((k, v) # d) = f v + column f d"
  by (simp_all add: column_def)

lemma column_update:
  "column f (AList.update k v al)
     = column f al - (case map_of al k of None \<Rightarrow> 0 | Some x \<Rightarrow> f x) + f v"
  using sum_update [of f k v al] by (simp add: column_def comp_def)

lemma user_loop_sum:
  assumes "\<And>a b. f (add_entry a b) = f a + f b" and "f zero_totals = 0"
  shows "column f (user_loop d us) = column f us + column f d"
proof (induction d arbitrary: us)
  case Nil
  then show ?case by (simp add: column_simps)
next
  case (Cons p d)
  obtain user e where p: "p = (user, e)" by (cases p)
  show ?case
    unfolding p user_loop.simps Cons.IH column_update
    by (simp add: assms column_simps split: option.splits)
qed

lemma owner_loop_sum:
  assumes "\<And>a b. f (add_entry a b) = f a + f b" and "f zero_totals = 0"
  shows "column f (owner_loop ow us) = column f us + column (column f) ow"
proof (induction ow arbitrary: us)
  case Nil
  then show ?case by (simp add: column_simps)
next
  case (Cons p ow)
  obtain own d where p: "p = (own, d)" by (cases p)
  show ?case
    unfolding p owner_loop.simps Cons.IH user_loop_sum [of f, OF assms]
    by (simp add: column_simps)
qed

lemma user_summary_sum:
  "column jobs (user_summary ow) = column (column jobs) ow"
  "column time (user_summary ow) = column (column time) ow"
  "column time_adj (user_summary ow) = column (column time_adj) ow"
  by (simp_all add: user_summary_def owner_loop_sum add_entry_fields zero_totals_fields
      column_simps)

lemma column_alt: "sum_list (map (f \<circ> snd) d) = column f d"
  by (simp add: column_def comp_def)

lemma owner_summaries_simps:
  "owner_summaries [] = []"
  "owner_summaries ((own, d) # ow)
     = (own, summary_loop (map snd d) zero_summary) # owner_summaries ow"
  by (simp_all add: owner_summaries_def)

lemma zero_summary_fields:
  "jobs zero_summary = 0" "time zero_summary = 0" "time_adj zero_summary = 0"
  "users zero_summary = 0"
  by (simp_all add: zero_summary_def)

lemma owner_summaries_sum:
  "column jobs (owner_summaries ow) = column (column jobs) ow"
  "column time (owner_summaries ow) = column (column time) ow"
  "column time_adj (owner_summaries ow) = column (column time_adj) ow"
proof (induction ow)
  case Nil
  {
    case 1 show ?case by (simp add: owner_summaries_simps column_simps)
  next
    case 2 show ?case by (simp add: owner_summaries_simps column_simps)
  next
    case 3 show ?case by (simp add: owner_summaries_simps column_simps)
  }
next
  case (Cons p ow)
  obtain own d where p: "p = (own, d)" by (cases p)
  {
    case 1 show ?case
      unfolding p owner_summaries_simps column_simps Cons.IH summary_loop_fields
      by (simp add: zero_summary_fields column_alt)
  next
    case 2 show ?case
      unfolding p owner_summaries_simps column_simps Cons.IH summary_loop_fields
      by (simp add: zero_summary_fields column_alt)
  next
    case 3 show ?case
      unfolding p owner_summaries_simps column_simps Cons.IH summary_loop_fields
      by (simp add: zero_summary_fields column_alt)
  }
qed

lemma record_usage_jobs:
  assumes "record_usage env r (ow, w) = Inr (ow', w')"
  shows "column (column jobs) ow' = column (column jobs) ow + 1"
proof -
  let ?e = "add_entry (or_zero (entry ow (equip_owner r) (owner r))) (usage env r)"
  let ?d = "case map_of ow (equip_owner r) of None \<Rightarrow> [] | Some d \<Rightarrow> d"
  from assms obtain out t0 t1 where c: "core_hours env r = Inr (out, t0, t1)"
    and ow': "ow' = AList.update (equip_owner r) (AList.update (owner r) ?e ?d) ow"
    by (elim record_usage_Inr)
  have u: "jobs (usage env r) = 1" by (simp add: usage_def c)
  have "column jobs (AList.update (owner r) ?e ?d) = column jobs ?d + 1"
    unfolding column_update
    by (simp add: add_entry_fields u or_zero_fields entry_def split: option.splits)
  then show ?thesis
    unfolding ow' column_update [of "column jobs"]
    by (simp add: column_simps split: option.splits)
qed

lemma collect_jobs:
  assumes "collect env rs (ow0, w0) = Inr (ow, w)"
  shows "column (column jobs) ow = column (column jobs) ow0 + int (length rs)"
  using assms
proof (induction rs arbitrary: ow0 w0)
  case Nil
  then show ?case by simp
next
  case (Cons r rs)
  from Cons.prems obtain ow1 w1 where r: "record_usage env r (ow0, w0) = Inr (ow1, w1)"
    and c: "collect env rs (ow1, w1) = Inr (ow, w)"
    by (cases "record_usage env r (ow0, w0)") (auto simp: bind_err_simps)
  show ?case
    unfolding Cons.IH [OF c] record_usage_jobs [OF r] by simp
qed


lemma aggregate_Inr:
  "aggregate env rs = Inr (ow, us, sm, w) \<longleftrightarrow>
     collect env rs ([], []) = Inr (ow, w) \<and> us = user_summary ow \<and> sm = owner_summaries ow"
  by (cases "collect env rs ([], [])") (auto simp: aggregate_def bind_err_simps)

lemma user_loop_distinct: "distinct (map fst us) \<Longrightarrow> distinct (map fst (user_loop d us))"
  by (induction d arbitrary: us) (auto simp: distinct_update)

lemma owner_loop_distinct: "distinct (map fst us) \<Longrightarrow> distinct (map fst (owner_loop ow us))"
  by (induction ow arbitrary: us) (auto simp: user_loop_distinct)

lemma collect_keys_distinct:
  assumes "collect env rs (ow0, w0) = Inr (ow, w)" and "distinct (map fst ow0)"
  shows "distinct (map fst ow)"
  using assms
proof (induction rs arbitrary: ow0 w0)
  case Nil
  then show ?case by simp
next
  case (Cons r rs)
  from Cons.prems(1) obtain ow1 w1 where r: "record_usage env r (ow0, w0) = Inr (ow1, w1)"
    and c: "collect env rs (ow1, w1) = Inr (ow, w)"
    by (cases "record_usage env r (ow0, w0)") (auto simp: bind_err_simps)
  have "distinct (map fst ow1)"
    using r Cons.prems(2) by (elim record_usage_Inr) (simp add: distinct_update)
  then show ?case by (rule Cons.IH [OF c])
qed

lemma owner_summaries_keys: "map fst (owner_summaries ow) = map fst ow"
  by (induction ow) (auto simp: owner_summaries_def)

text \<open>
  C5. When the aggregation of a list of records returns, the job counts of the
  owner summaries and the job counts of the user summaries both add up to the number
  of records, the two time columns add up to the same sums in both dictionaries, the
  keys of each dictionary are distinct, and the summary of a user is the sum of the
  entries under that user's key over all owners (no summary for a user without an
  entry).
\<close>

theorem aggregate_totals_agree:
  assumes "aggregate env rs = Inr (owners, us, sm, err)"
  shows "column jobs sm = int (length rs) \<and> column jobs us = int (length rs)
         \<and> column time sm = column time us \<and> column time_adj sm = column time_adj us
         \<and> distinct (map fst owners) \<and> distinct (map fst us) \<and> distinct (map fst sm)
         \<and> (\<forall>u. map_of us u
               = (if user_entries owners u = [] then None
                  else Some (sum_totals (user_entries owners u))))"
proof -
  from assms have c: "collect env rs ([], []) = Inr (owners, err)"
    and us: "us = user_summary owners" and sm: "sm = owner_summaries owners"
    by (simp_all add: aggregate_Inr)
  have j: "column (column jobs) owners = int (length rs)"
    using collect_jobs [OF c] by (simp add: column_simps)
  have d: "distinct (map fst owners)"
    using collect_keys_distinct [OF c] by simp
  have du: "distinct (map fst us)"
    unfolding us user_summary_def by (rule owner_loop_distinct) simp
  show ?thesis
    using j d du
    by (simp add: us sm user_summary_sum owner_summaries_sum owner_summaries_keys
        user_summary_lookup)
qed

lemma ex_aggregate:
  "aggregate ex_sge ex_records = Inr
    ([(''ENV'', [(''alice'', \<lparr>jobs = 1, time = 14400, time_adj = 43200\<rparr>),
                 (''bob'', \<lparr>jobs = 1, time = 14400, time_adj = 14400\<rparr>)]),
      (''MAPS'', [(''alice'', \<lparr>jobs = 1, time = 14400, time_adj = 14400\<rparr>)])],
     [(''alice'', \<lparr>jobs = 2, time = 28800, time_adj = 57600\<rparr>),
      (''bob'', \<lparr>jobs = 1, time = 14400, time_adj = 14400\<rparr>)],
     [(''ENV'', \<lparr>jobs = 2, time = 28800, time_adj = 57600, users = 2\<rparr>),
      (''MAPS'', \<lparr>jobs = 1, time = 14400, time_adj = 14400, users = 1\<rparr>)],
     [''Warning: could not extract mem or mem per node details for job3 (-l h_rt=3600)''])"
  by code_simp

text \<open>
  The three example records: three jobs in both dictionaries.
\<close>

theorem aggregate_totals_agree_witness:
  "aggregate ex_sge ex_records = Inr
    ([(''ENV'', [(''alice'', \<lparr>jobs = 1, time = 14400, time_adj = 43200\<rparr>),
                 (''bob'', \<lparr>jobs = 1, time = 14400, time_adj = 14400\<rparr>)]),
      (''MAPS'', [(''alice'', \<lparr>jobs = 1, time = 14400, time_adj = 14400\<rparr>)])],
     [(''alice'', \<lparr>jobs = 2, time = 28800, time_adj = 57600\<rparr>),
      (''bob'', \<lparr>jobs = 1, time = 14400, time_adj = 14400\<rparr>)],
     [(''ENV'', \<lparr>jobs = 2, time = 28800, time_adj = 57600, users = 2\<rparr>),
      (''MAPS'', \<lparr>jobs = 1, time = 14400, time_adj = 14400, users = 1\<rparr>)],
     [''Warning: could not extract mem or mem per node details for job3 (-l h_rt=3600)''])
   \<and> column jobs [(''ENV'', \<lparr>jobs = 2, time = 28800, time_adj = 57600, users = 2\<rparr>),
                   (''MAPS'', \<lparr>jobs = 1, time = 14400, time_adj = 14400, users = 1\<rparr>)]
       = int (length ex_records)
   \<and> column jobs [(''alice'', \<lparr>jobs = 2, time = 28800, time_adj = 57600\<rparr>),
                   (''bob'', \<lparr>jobs = 1, time = 14400, time_adj = 14400\<rparr>)]
       = int (length ex_records)
   \<and> length ex_records = 3"
  using aggregate_totals_agree [OF ex_aggregate] ex_aggregate
  by (simp add: ex_records_def)

lemma sum_list_mset_cong':
  fixes g :: "'a \<Rightarrow> 'b::comm_monoid_add"
  assumes "mset xs = mset ys"
  shows "sum_list (map g xs) = sum_list (map g ys)"
proof -
  have "sum_list (map g xs) = sum_mset (image_mset g (mset xs))"
    by (simp flip: sum_mset_sum_list)
  also have "\<dots> = sum_mset (image_mset g (mset ys))" using assms by simp
  also have "\<dots> = sum_list (map g ys)" by (simp flip: sum_mset_sum_list)
  finally show ?thesis .
qed

lemma stderr_lines_perm:
  assumes "mset xs = mset ys"
  shows "mset (stderr_lines env xs) = mset (stderr_lines env ys)"
  unfolding stderr_lines_def mset_concat map_map
  by (rule sum_list_mset_cong' [OF assms])

lemma stderr_lines_append: "stderr_lines env (xs @ ys) = stderr_lines env xs @ stderr_lines env ys"
  by (simp add: stderr_lines_def)

lemma summary_eqI:
  fixes a b :: summary
  assumes "summary_totals a = summary_totals b" and "users a = users b"
  shows "a = b"
  using assms by (cases a, cases b) (simp add: summary_totals_def)

lemma summary_option_eqI:
  fixes x y :: "summary option"
  assumes "map_option summary_totals x = map_option summary_totals y"
    and "map_option users x = map_option users y"
  shows "x = y"
  using assms by (cases x; cases y) (auto intro: summary_eqI)

text \<open>Two folds over the same records in any order give the same dictionaries.\<close>

lemma collect_perm:
  assumes c: "collect env xs ([], []) = Inr (ow, w)" and m: "mset ys = mset xs"
  obtains ow' w' where "collect env ys ([], []) = Inr (ow', w')"
    and "entry ow' = entry ow"
    and "map_of (user_summary ow') = map_of (user_summary ow)"
    and "map_of (owner_summaries ow') = map_of (owner_summaries ow)"
    and "mset w' = mset w"
proof -
  have s: "set ys = set xs" using m by (rule mset_eq_setD)
  have "\<forall>r\<in>set xs. \<exists>x. core_hours env r = Inr x"
    using c collect_ok [of env xs "([], [])"] by auto
  then have "\<exists>st'. collect env ys ([], []) = Inr st'"
    using collect_ok [of env ys "([], [])"] s by auto
  then obtain ow' w' where c': "collect env ys ([], []) = Inr (ow', w')" by auto
  note t = tally_perm [OF m]
  have e: "entry ow' = entry ow"
    by (intro ext) (simp add: collect_views(1) [OF c] collect_views(1) [OF c'] t)
  have u: "map_of (user_summary ow') = map_of (user_summary ow)"
    by (intro ext) (simp add: collect_views(2) [OF c] collect_views(2) [OF c'] t)
  have o: "map_of (owner_summaries ow') = map_of (owner_summaries ow)"
  proof (intro ext summary_option_eqI)
    fix k
    show "map_option summary_totals (map_of (owner_summaries ow') k)
        = map_option summary_totals (map_of (owner_summaries ow) k)"
      by (simp add: collect_views(3) [OF c] collect_views(3) [OF c'] t)
    show "map_option users (map_of (owner_summaries ow') k)
        = map_option users (map_of (owner_summaries ow) k)"
      by (simp add: collect_users_count [OF c] collect_users_count [OF c'] s)
  qed
  have "mset w' = mset w"
    using collect_stderr [OF c] collect_stderr [OF c'] stderr_lines_perm [OF m] by simp
  with c' e u o show ?thesis by (rule that)
qed

lemma collect_split:
  assumes "collect env (xs @ ys) ([], []) = Inr (ow, w)"
  obtains ow1 w1 ow2 w2 where "collect env xs ([], []) = Inr (ow1, w1)"
    and "collect env ys ([], []) = Inr (ow2, w2)"
proof -
  have "\<forall>r\<in>set (xs @ ys). \<exists>x. core_hours env r = Inr x"
    using assms collect_ok [of env "xs @ ys" "([], [])"] by auto
  then have "\<exists>st'. collect env xs ([], []) = Inr st'" "\<exists>st'. collect env ys ([], []) = Inr st'"
    using collect_ok [of env xs "([], [])"] collect_ok [of env ys "([], [])"] by auto
  then show ?thesis using that by auto
qed

text \<open>
  C4. When the aggregation of \<open>S1 @ S2\<close> returns, so do the aggregations of \<open>S1\<close> and
  of \<open>S2\<close>, and the dictionaries of the whole, read as maps, are the merge of the
  dictionaries of the parts: the entries of each owner, the user summaries, and the job
  and time columns of the owner summaries; the lines printed are those of \<open>S1\<close> followed
  by those of \<open>S2\<close>. The aggregation of the same records in any other order returns the
  same three maps and the same lines up to their order. The addition of totals is
  associative and commutative with the zero totals as its unit.
\<close>

theorem aggregate_merge:
  assumes "aggregate env (S1 @ S2) = Inr (ow, us, sm, w)"
  shows "(\<exists>ow1 us1 sm1 w1 ow2 us2 sm2 w2.
            aggregate env S1 = Inr (ow1, us1, sm1, w1)
            \<and> aggregate env S2 = Inr (ow2, us2, sm2, w2)
            \<and> (\<forall>k. entry ow k = merge_totals (entry ow1 k) (entry ow2 k))
            \<and> map_of us = merge_totals (map_of us1) (map_of us2)
            \<and> (\<lambda>k. map_option summary_totals (map_of sm k))
                 = merge_totals (\<lambda>k. map_option summary_totals (map_of sm1 k))
                     (\<lambda>k. map_option summary_totals (map_of sm2 k))
            \<and> w = w1 @ w2)
         \<and> (\<forall>S'. mset S' = mset (S1 @ S2) \<longrightarrow>
               (\<exists>ow' us' sm' w'.
                  aggregate env S' = Inr (ow', us', sm', w')
                  \<and> entry ow' = entry ow \<and> map_of us' = map_of us \<and> map_of sm' = map_of sm
                  \<and> mset w' = mset w))
         \<and> (\<forall>a b c. add_entry (add_entry a b) c = add_entry a (add_entry b c))
         \<and> (\<forall>a b. add_entry a b = add_entry b a)
         \<and> (\<forall>a. add_entry zero_totals a = a \<and> add_entry a zero_totals = a)"
proof (intro conjI allI impI)
  from assms have c: "collect env (S1 @ S2) ([], []) = Inr (ow, w)"
    and us: "us = user_summary ow" and sm: "sm = owner_summaries ow"
    by (simp_all add: aggregate_Inr)
  from c obtain ow1 w1 ow2 w2 where c1: "collect env S1 ([], []) = Inr (ow1, w1)"
    and c2: "collect env S2 ([], []) = Inr (ow2, w2)"
    by (rule collect_split)
  have a1: "aggregate env S1 = Inr (ow1, user_summary ow1, owner_summaries ow1, w1)"
    and a2: "aggregate env S2 = Inr (ow2, user_summary ow2, owner_summaries ow2, w2)"
    using c1 c2 by (simp_all add: aggregate_Inr)
  have e: "entry ow k = merge_totals (entry ow1 k) (entry ow2 k)" for k
    unfolding merge_totals_def
    by (intro ext)
       (simp add: collect_views(1) [OF c] collect_views(1) [OF c1] collect_views(1) [OF c2]
          tally_append cong: option.case_cong)
  have u: "map_of us = merge_totals (map_of (user_summary ow1)) (map_of (user_summary ow2))"
    unfolding merge_totals_def us
    by (intro ext)
       (simp add: collect_views(2) [OF c] collect_views(2) [OF c1] collect_views(2) [OF c2]
          tally_append cong: option.case_cong)
  have o: "(\<lambda>k. map_option summary_totals (map_of sm k))
      = merge_totals (\<lambda>k. map_option summary_totals (map_of (owner_summaries ow1) k))
          (\<lambda>k. map_option summary_totals (map_of (owner_summaries ow2) k))"
    unfolding merge_totals_def sm
    by (intro ext)
       (simp add: collect_views(3) [OF c] collect_views(3) [OF c1] collect_views(3) [OF c2]
          tally_append cong: option.case_cong)
  have w: "w = w1 @ w2"
    using collect_stderr [OF c] collect_stderr [OF c1] collect_stderr [OF c2]
    by (simp add: stderr_lines_append)
  show "\<exists>ow1 us1 sm1 w1 ow2 us2 sm2 w2.
            aggregate env S1 = Inr (ow1, us1, sm1, w1)
            \<and> aggregate env S2 = Inr (ow2, us2, sm2, w2)
            \<and> (\<forall>k. entry ow k = merge_totals (entry ow1 k) (entry ow2 k))
            \<and> map_of us = merge_totals (map_of us1) (map_of us2)
            \<and> (\<lambda>k. map_option summary_totals (map_of sm k))
                 = merge_totals (\<lambda>k. map_option summary_totals (map_of sm1 k))
                     (\<lambda>k. map_option summary_totals (map_of sm2 k))
            \<and> w = w1 @ w2"
    using a1 a2 e u o w by blast
next
  fix S'
  assume m: "mset S' = mset (S1 @ S2)"
  from assms have c: "collect env (S1 @ S2) ([], []) = Inr (ow, w)"
    and us: "us = user_summary ow" and sm: "sm = owner_summaries ow"
    by (simp_all add: aggregate_Inr)
  from c m obtain ow' w' where "collect env S' ([], []) = Inr (ow', w')"
    and "entry ow' = entry ow"
    and "map_of (user_summary ow') = map_of (user_summary ow)"
    and "map_of (owner_summaries ow') = map_of (owner_summaries ow)"
    and "mset w' = mset w"
    by (rule collect_perm)
  then show "\<exists>ow' us' sm' w'.
                  aggregate env S' = Inr (ow', us', sm', w')
                  \<and> entry ow' = entry ow \<and> map_of us' = map_of us \<and> map_of sm' = map_of sm
                  \<and> mset w' = mset w"
    by (simp add: aggregate_Inr us sm)
next
  fix a b c
  show "add_entry (add_entry a b) c = add_entry a (add_entry b c)" by (rule add_entry_assoc)
  show "add_entry a b = add_entry b a" by (rule add_entry_commute)
  show "add_entry zero_totals a = a" "add_entry a zero_totals = a"
    by (rule add_entry_zero)+
qed

lemma ex_aggregate_split:
  "aggregate ex_sge (take 2 ex_records @ drop 2 ex_records) = Inr
    ([(''ENV'', [(''alice'', \<lparr>jobs = 1, time = 14400, time_adj = 43200\<rparr>),
                 (''bob'', \<lparr>jobs = 1, time = 14400, time_adj = 14400\<rparr>)]),
      (''MAPS'', [(''alice'', \<lparr>jobs = 1, time = 14400, time_adj = 14400\<rparr>)])],
     [(''alice'', \<lparr>jobs = 2, time = 28800, time_adj = 57600\<rparr>),
      (''bob'', \<lparr>jobs = 1, time = 14400, time_adj = 14400\<rparr>)],
     [(''ENV'', \<lparr>jobs = 2, time = 28800, time_adj = 57600, users = 2\<rparr>),
      (''MAPS'', \<lparr>jobs = 1, time = 14400, time_adj = 14400, users = 1\<rparr>)],
     [''Warning: could not extract mem or mem per node details for job3 (-l h_rt=3600)''])"
  using ex_aggregate by simp

text \<open>
  The example records, split after the second.
\<close>

theorem aggregate_merge_witness:
  "\<exists>ow1 us1 sm1 w1 ow2 us2 sm2 w2.
      aggregate ex_sge (take 2 ex_records) = Inr (ow1, us1, sm1, w1)
      \<and> aggregate ex_sge (drop 2 ex_records) = Inr (ow2, us2, sm2, w2)
      \<and> map_of [(''alice'', \<lparr>jobs = 2, time = 28800, time_adj = 57600\<rparr>),
                 (''bob'', \<lparr>jobs = 1, time = 14400, time_adj = 14400\<rparr>)]
          = merge_totals (map_of us1) (map_of us2)
      \<and> [''Warning: could not extract mem or mem per node details for job3 (-l h_rt=3600)'']
          = w1 @ w2"
proof -
  from aggregate_merge [OF ex_aggregate_split, THEN conjunct1]
  obtain ow1 us1 sm1 w1 ow2 us2 sm2 w2 where
    "aggregate ex_sge (take 2 ex_records) = Inr (ow1, us1, sm1, w1)"
    "aggregate ex_sge (drop 2 ex_records) = Inr (ow2, us2, sm2, w2)"
    "map_of [(''alice'', \<lparr>jobs = 2, time = 28800, time_adj = 57600\<rparr>),
             (''bob'', \<lparr>jobs = 1, time = 14400, time_adj = 14400\<rparr>)]
      = merge_totals (map_of us1) (map_of us2)"
    "[''Warning: could not extract mem or mem per node details for job3 (-l h_rt=3600)'']
      = w1 @ w2"
    by blast
  then show ?thesis by blast
qed


end
